theory Spec2Isabelle
  imports Complex_Main "HOL-Library.AList"
begin

section \<open>Data model of the chunk system (src/game.js, lines 129-153)\<close>

text \<open>
  JavaScript numbers are modelled as real numbers (block coordinates, capsule
  geometry) and, where the source only ever holds non-negative integers
  (instance counts, capacities, slot indices), as natural numbers.
  Floating-point rounding is outside the model.

  The keys of the JavaScript maps are template strings of the form
  \<open>a,b,c\<close> with \<open>a\<close>, \<open>b\<close>, \<open>c\<close> the results of \<open>Math.floor\<close>.
  Such a string determines the three integers and is determined by them, so a key
  is modelled as the three integers themselves.
\<close>

datatype key = Key (keyX: int) (keyY: int) (keyZ: int)

text \<open>The two material tags, the strings \<open>green\<close> (ground) and \<open>brown\<close> (placed).\<close>

datatype btype = Green | Brown

text \<open>An element \<open>[x, y, z, type]\<close> of a chunk's persistent array.\<close>

type_synonym entry = "real \<times> real \<times> real \<times> btype"

text \<open>
  The 4x4 instance matrices the source handles are of three shapes only: the result
  of \<open>makeTranslation(x, y, z)\<close>, a slot of a freshly allocated (zero-filled)
  instance buffer, and what a read beyond the buffer yields (all entries
  \<open>undefined\<close>, stored back as NaN).
\<close>

datatype mat4 = Translation real real real | ZeroMatrix | NaNMatrix

text \<open>
  \<open>THREE.InstancedMesh\<close>: the instance buffer (one matrix per slot, as many
  slots as the capacity given at creation) and the draw count \<open>mesh.count\<close>.
\<close>

record instanced_mesh =
  instanceMatrix :: "mat4 list"
  drawCount :: nat

text \<open>
  The chunk record of \<open>makeEmptyChunkRecord\<close>. The per-material tables
  \<open>{ green: ..., brown: ... }\<close> are functions of the material; \<open>null\<close> is
  \<open>None\<close>; a JavaScript array that may have holes is a list of options.
\<close>

record chunk_record =
  occupancy :: "key \<rightharpoonup> btype"
  meshes :: "btype \<Rightarrow> instanced_mesh option"
  indexMaps :: "btype \<Rightarrow> (key \<rightharpoonup> nat)"
  cellsByIndex :: "btype \<Rightarrow> key option list"
  counts :: "btype \<Rightarrow> nat"
  capacities :: "btype \<Rightarrow> nat"

text \<open>
  The two global maps. \<open>chunks\<close> is iterated by \<open>updateChunks\<close>, so it keeps
  its entries in insertion order as an association list; \<open>chunkData\<close> is only
  looked up and written. The render graph (\<open>scene.add\<close>, \<open>scene.remove\<close>)
  belongs to the rendering library and is not part of the state.
\<close>

record world =
  chunks :: "(key \<times> chunk_record) list"
  chunkData :: "key \<rightharpoonup> entry list"

text \<open>
  How a call ends other than by returning. \<open>TypeError\<close> is the exception
  JavaScript raises on a property access through \<open>null\<close>. \<open>Unmodelled\<close> marks
  the places where the source would go on with \<open>undefined\<close> as an index or as a
  map key (it raises nothing there); the model stops instead, and
  \<open>removeBlockAt_reachable\<close> below shows that no reachable state gets there.
\<close>

datatype error = TypeError | Unmodelled

text \<open>
  The values a call can return. The source only ever returns \<open>undefined\<close>;
  booleans and material tags are the values the specification's contract names.
\<close>

datatype jsval = Undefined | Boolean bool | Material btype

definition CHUNK_SIZE :: int where
  "CHUNK_SIZE = 16"

definition RENDER_DISTANCE :: int where
  "RENDER_DISTANCE = 2"

definition cubeSize :: real where
  "cubeSize = 1"

definition getChunkKey :: "real \<Rightarrow> real \<Rightarrow> real \<Rightarrow> key" where
  "getChunkKey x y z =
     Key \<lfloor>x / real_of_int CHUNK_SIZE\<rfloor> \<lfloor>y / real_of_int CHUNK_SIZE\<rfloor>
         \<lfloor>z / real_of_int CHUNK_SIZE\<rfloor>"

definition getChunkKeyFromCoords :: "int \<Rightarrow> int \<Rightarrow> int \<Rightarrow> key" where
  "getChunkKeyFromCoords cx cy cz = Key cx cy cz"

definition getCellKey :: "real \<Rightarrow> real \<Rightarrow> real \<Rightarrow> key" where
  "getCellKey x y z = Key \<lfloor>x\<rfloor> \<lfloor>y\<rfloor> \<lfloor>z\<rfloor>"

definition snapToGrid :: "real \<Rightarrow> real" where
  "snapToGrid v = real_of_int \<lfloor>v / cubeSize\<rfloor> * cubeSize + cubeSize / 2"

definition makeEmptyChunkRecord :: chunk_record where
  "makeEmptyChunkRecord =
     \<lparr>occupancy = Map.empty,
      meshes = (\<lambda>_. None),
      indexMaps = (\<lambda>_. Map.empty),
      cellsByIndex = (\<lambda>_. []),
      counts = (\<lambda>_. 0),
      capacities = (\<lambda>_. 0)\<rparr>"

subsection \<open>JavaScript arrays\<close>

text \<open>
  \<open>a[i]\<close> beyond the length is \<open>undefined\<close>; \<open>a[i] = v\<close> beyond the
  length extends the array, leaving holes; \<open>a.length = n\<close> truncates or extends
  with holes.
\<close>

definition jsGet :: "'a option list \<Rightarrow> nat \<Rightarrow> 'a option" where
  "jsGet a i = (if i < length a then a ! i else None)"

definition jsSet :: "'a option list \<Rightarrow> nat \<Rightarrow> 'a \<Rightarrow> 'a option list" where
  "jsSet a i v =
     (if i < length a then a[i := Some v]
      else a @ replicate (i - length a) None @ [Some v])"

definition jsSetLength :: "'a option list \<Rightarrow> nat \<Rightarrow> 'a option list" where
  "jsSetLength a n =
     (if n \<le> length a then take n a else a @ replicate (n - length a) None)"

section \<open>Instanced helpers (lines 165-210)\<close>

definition createInstancedMesh :: "nat \<Rightarrow> instanced_mesh" where
  "createInstancedMesh capacity =
     \<lparr>instanceMatrix = replicate capacity ZeroMatrix, drawCount = 0\<rparr>"

text \<open>
  \<open>getMatrixAt\<close> and \<open>setMatrixAt\<close> copy a matrix out of and into the typed
  instance buffer: a read beyond it yields \<open>undefined\<close> entries, a write beyond
  it is dropped. The scratch matrix \<open>tmpMat\<close> is written before each read, so
  it carries nothing between calls and is passed as a value.
\<close>

definition getMatrixAt :: "instanced_mesh \<Rightarrow> nat \<Rightarrow> mat4" where
  "getMatrixAt mesh i =
     (if i < length (instanceMatrix mesh) then instanceMatrix mesh ! i else NaNMatrix)"

definition setMatrixAt :: "instanced_mesh \<Rightarrow> nat \<Rightarrow> mat4 \<Rightarrow> instanced_mesh" where
  "setMatrixAt mesh i m = mesh\<lparr>instanceMatrix := (instanceMatrix mesh)[i := m]\<rparr>"

text \<open>The loop \<open>for (i = 0; i < record.counts[type]; i++)\<close> that copies the old matrices.\<close>

fun copyMatrices :: "instanced_mesh \<Rightarrow> nat \<Rightarrow> instanced_mesh \<Rightarrow> instanced_mesh" where
  "copyMatrices oldMesh 0 newMesh = newMesh"
| "copyMatrices oldMesh (Suc i) newMesh =
     setMatrixAt (copyMatrices oldMesh i newMesh) i (getMatrixAt oldMesh i)"

definition ensureCapacityForType :: "chunk_record \<Rightarrow> btype \<Rightarrow> nat \<Rightarrow> chunk_record" where
  "ensureCapacityForType record type needed =
     (if capacities record type \<ge> needed then record
      else
        let newCapacity = max needed (max 8 (capacities record type * 2));
            newMesh0 = createInstancedMesh newCapacity;
            newMesh =
              (case meshes record type of
                 None \<Rightarrow> newMesh0
               | Some oldMesh \<Rightarrow>
                   (copyMatrices oldMesh (counts record type) newMesh0)
                     \<lparr>drawCount := counts record type\<rparr>)
        in record\<lparr>meshes := (meshes record)(type := Some newMesh),
                  capacities := (capacities record)(type := newCapacity)\<rparr>)"

definition setInstanceAt ::
  "chunk_record \<Rightarrow> btype \<Rightarrow> nat \<Rightarrow> real \<Rightarrow> real \<Rightarrow> real \<Rightarrow> error + chunk_record" where
  "setInstanceAt record type idx x y z =
     (case meshes record type of
        None \<Rightarrow> Inl TypeError
      | Some mesh \<Rightarrow>
          Inr (record\<lparr>meshes := (meshes record)(type := Some (setMatrixAt mesh idx (Translation x y z)))\<rparr>))"

section \<open>Procedural generation (lines 251-263)\<close>

definition generateGroundArrayForChunk :: "int \<Rightarrow> int \<Rightarrow> entry list" where
  "generateGroundArrayForChunk cx cz =
     [(real_of_int (cx * CHUNK_SIZE + x) + 1/2, real_of_int y + 1/2,
       real_of_int (cz * CHUNK_SIZE + z) + 1/2, Green).
        x \<leftarrow> [0 .. CHUNK_SIZE - 1], z \<leftarrow> [0 .. CHUNK_SIZE - 1], y \<leftarrow> [0 .. 2]]"

section \<open>Building a chunk from its array (lines 212-249)\<close>

text \<open>
  The first loop of \<open>buildChunkFromArray\<close>: every element sets the occupancy of
  its cell and is pushed, with its cell key, onto \<open>greens\<close> or \<open>browns\<close>.
\<close>

type_synonym placed = "real \<times> real \<times> real \<times> key"

fun separateByType ::
  "entry list \<Rightarrow> chunk_record \<times> placed list \<times> placed list \<Rightarrow>
   chunk_record \<times> placed list \<times> placed list" where
  "separateByType [] acc = acc"
| "separateByType ((x, y, z, type) # arr) (rec, greens, browns) =
     (let ck = getCellKey x y z;
          rec1 = rec\<lparr>occupancy := (occupancy rec)(ck \<mapsto> type)\<rparr>
      in separateByType arr
           (if type = Green then (rec1, greens @ [(x, y, z, ck)], browns)
            else (rec1, greens, browns @ [(x, y, z, ck)])))"

text \<open>
  The body of \<open>greens.forEach(([x, y, z, ck], i) => ...)\<close>, run from index
  \<open>i\<close> on.
\<close>

fun placeEach :: "btype \<Rightarrow> placed list \<Rightarrow> nat \<Rightarrow> chunk_record \<Rightarrow> error + chunk_record" where
  "placeEach type [] i rec = Inr rec"
| "placeEach type ((x, y, z, ck) # rest) i rec =
     (case setInstanceAt rec type i x y z of
        Inl e \<Rightarrow> Inl e
      | Inr rec1 \<Rightarrow>
          placeEach type rest (Suc i)
            (rec1\<lparr>indexMaps := (indexMaps rec1)(type := (indexMaps rec1 type)(ck \<mapsto> i)),
                  cellsByIndex := (cellsByIndex rec1)(type := jsSet (cellsByIndex rec1 type) i ck)\<rparr>))"

text \<open>The assignment \<open>rec.meshes[type].count = rec.counts[type]\<close>.\<close>

definition setDrawCount :: "chunk_record \<Rightarrow> btype \<Rightarrow> error + chunk_record" where
  "setDrawCount rec type =
     (case meshes rec type of
        None \<Rightarrow> Inl TypeError
      | Some mesh \<Rightarrow>
          Inr (rec\<lparr>meshes := (meshes rec)(type := Some (mesh\<lparr>drawCount := counts rec type\<rparr>))\<rparr>))"

text \<open>One of the two blocks \<open>if (greens.length) { ... }\<close>, \<open>if (browns.length) { ... }\<close>.\<close>

definition populate :: "btype \<Rightarrow> placed list \<Rightarrow> chunk_record \<Rightarrow> error + chunk_record" where
  "populate type items rec =
     (if length items = 0 then Inr rec
      else
        case placeEach type items 0 (ensureCapacityForType rec type (length items)) of
          Inl e \<Rightarrow> Inl e
        | Inr rec1 \<Rightarrow> setDrawCount (rec1\<lparr>counts := (counts rec1)(type := length items)\<rparr>) type)"

text \<open>The record \<open>buildChunkFromArray\<close> builds before it stores it.\<close>

definition buildRecord :: "entry list \<Rightarrow> error + chunk_record" where
  "buildRecord arr =
     (case separateByType arr (makeEmptyChunkRecord, [], []) of
        (rec, greens, browns) \<Rightarrow>
          (case populate Green greens rec of
             Inl e \<Rightarrow> Inl e
           | Inr rec1 \<Rightarrow> populate Brown browns rec1))"

definition buildChunkFromArray :: "key \<Rightarrow> entry list \<Rightarrow> world \<Rightarrow> error + world" where
  "buildChunkFromArray k arr w =
     (case buildRecord arr of
        Inl e \<Rightarrow> Inl e
      | Inr rec \<Rightarrow> Inr (w\<lparr>chunks := AList.update k rec (chunks w)\<rparr>))"

section \<open>Placing and destroying cubes (lines 408-473)\<close>

text \<open>
  A chunk record is an object held by the map \<open>chunks\<close>: what the source changes
  in place, the model stores back under the same key.
\<close>

definition addBlockAt ::
  "real \<Rightarrow> real \<Rightarrow> real \<Rightarrow> btype \<Rightarrow> world \<Rightarrow> error + (jsval \<times> world)" where
  "addBlockAt x y z type w =
     (let k = getChunkKey x y z in
      (case map_of (chunks w) k of
         None \<Rightarrow> Inr (Undefined, w)
       | Some rec \<Rightarrow>
          (let ck = getCellKey x y z in
           if occupancy rec ck \<noteq> None then Inr (Undefined, w)
           else
             (let rec1 = rec\<lparr>occupancy := (occupancy rec)(ck \<mapsto> type)\<rparr>;
                  arr = (case chunkData w k of None \<Rightarrow> [] | Some a \<Rightarrow> a);
                  data1 = (chunkData w)(k \<mapsto> arr @ [(x, y, z, type)]);
                  rec2 = ensureCapacityForType rec1 type (counts rec1 type + 1);
                  idx = counts rec2 type
              in (case setInstanceAt rec2 type idx x y z of
                    Inl e \<Rightarrow> Inl e
                  | Inr rec3 \<Rightarrow>
                     (let rec4 = rec3
                            \<lparr>cellsByIndex := (cellsByIndex rec3)(type := jsSet (cellsByIndex rec3 type) idx ck),
                             indexMaps := (indexMaps rec3)(type := (indexMaps rec3 type)(ck \<mapsto> idx)),
                             counts := (counts rec3)(type := counts rec3 type + 1)\<rparr>
                      in (case setDrawCount rec4 type of
                            Inl e \<Rightarrow> Inl e
                          | Inr rec5 \<Rightarrow>
                              Inr (Undefined,
                                   \<lparr>chunks = AList.update k rec5 (chunks w), chunkData = data1\<rparr>))))))))"

text \<open>
  The block \<open>if (idx !== last) { ... }\<close> of \<open>removeBlockAt\<close>: the last
  instance moves into the slot \<open>idx\<close>.
\<close>

definition moveLastInto :: "chunk_record \<Rightarrow> btype \<Rightarrow> nat \<Rightarrow> nat \<Rightarrow> error + chunk_record" where
  "moveLastInto rec type idx lastIdx =
     (case meshes rec type of
        None \<Rightarrow> Inl TypeError
      | Some mesh \<Rightarrow>
          (case jsGet (cellsByIndex rec type) lastIdx of
             None \<Rightarrow> Inl Unmodelled
           | Some lastCell \<Rightarrow>
               Inr (rec\<lparr>meshes := (meshes rec)(type := Some (setMatrixAt mesh idx (getMatrixAt mesh lastIdx))),
                        cellsByIndex := (cellsByIndex rec)(type := jsSet (cellsByIndex rec type) idx lastCell),
                        indexMaps := (indexMaps rec)(type := (indexMaps rec type)(lastCell \<mapsto> idx))\<rparr>)))"

text \<open>
  The swap-remove of \<open>removeBlockAt\<close> with the cleaning of the maps that
  follows it. With no slot recorded for the cell, or a count of zero, the source
  computes with \<open>undefined\<close> or \<open>-1\<close> as an index.
\<close>

definition swapRemove :: "chunk_record \<Rightarrow> btype \<Rightarrow> key \<Rightarrow> error + chunk_record" where
  "swapRemove rec type ck =
     (case indexMaps rec type ck of
        None \<Rightarrow> (case meshes rec type of None \<Rightarrow> Inl TypeError | Some _ \<Rightarrow> Inl Unmodelled)
      | Some idx \<Rightarrow>
          if counts rec type = 0
          then (case meshes rec type of None \<Rightarrow> Inl TypeError | Some _ \<Rightarrow> Inl Unmodelled)
          else
            (let lastIdx = counts rec type - 1 in
             (case (if idx \<noteq> lastIdx then moveLastInto rec type idx lastIdx else Inr rec) of
                Inl e \<Rightarrow> Inl e
              | Inr rec1 \<Rightarrow>
                 (case setDrawCount (rec1\<lparr>counts := (counts rec1)(type := lastIdx)\<rparr>) type of
                    Inl e \<Rightarrow> Inl e
                  | Inr rec2 \<Rightarrow>
                      Inr (rec2\<lparr>indexMaps := (indexMaps rec2)(type := (indexMaps rec2 type)(ck := None)),
                               cellsByIndex := (cellsByIndex rec2)(type := jsSetLength (cellsByIndex rec2 type) (counts rec2 type)),
                               occupancy := (occupancy rec2)(ck := None)\<rparr>)))))"

definition removeBlockAt :: "real \<Rightarrow> real \<Rightarrow> real \<Rightarrow> world \<Rightarrow> error + (jsval \<times> world)" where
  "removeBlockAt x y z w =
     (let k = getChunkKey x y z in
      (case map_of (chunks w) k of
         None \<Rightarrow> Inr (Undefined, w)
       | Some rec \<Rightarrow>
          (let ck = getCellKey x y z in
           (case occupancy rec ck of
              None \<Rightarrow> Inr (Undefined, w)
            | Some type \<Rightarrow>
               (case swapRemove rec type ck of
                  Inl e \<Rightarrow> Inl e
                | Inr rec1 \<Rightarrow>
                   (let data1 =
                          (case chunkData w k of
                             None \<Rightarrow> chunkData w
                           | Some arr \<Rightarrow>
                               (chunkData w)
                                 (k \<mapsto> filter (\<lambda>(c0, c1, c2, _). \<not> (c0 = x \<and> c1 = y \<and> c2 = z)) arr))
                    in Inr (Undefined,
                            \<lparr>chunks = AList.update k rec1 (chunks w), chunkData = data1\<rparr>)))))))"

section \<open>Chunk loading and unloading (lines 552-593)\<close>

definition loadOrGenerateChunk :: "int \<Rightarrow> int \<Rightarrow> world \<Rightarrow> error + world" where
  "loadOrGenerateChunk cx cz w =
     (let k = getChunkKeyFromCoords cx 0 cz in
      if map_of (chunks w) k \<noteq> None then Inr w
      else
        case chunkData w k of
          Some arr \<Rightarrow> buildChunkFromArray k arr w
        | None \<Rightarrow>
            let arr = generateGroundArrayForChunk cx cz
            in buildChunkFromArray k arr (w\<lparr>chunkData := (chunkData w)(k \<mapsto> arr)\<rparr>))"

definition unloadChunk :: "key \<Rightarrow> world \<Rightarrow> world" where
  "unloadChunk k w =
     (case map_of (chunks w) k of
        None \<Rightarrow> w
      | Some rec \<Rightarrow> w\<lparr>chunks := AList.delete k (chunks w)\<rparr>)"

text \<open>
  The two nested loops of \<open>updateChunks\<close> over \<open>dx\<close> and \<open>dz\<close>, as one
  loop over the pairs in the order the source visits them. The state of the loop is
  the set \<open>active\<close> and the world.
\<close>

definition offsets :: "(int \<times> int) list" where
  "offsets = [(dx, dz). dx \<leftarrow> [- RENDER_DISTANCE .. RENDER_DISTANCE],
                         dz \<leftarrow> [- RENDER_DISTANCE .. RENDER_DISTANCE]]"

fun loadLoop :: "int \<Rightarrow> int \<Rightarrow> (int \<times> int) list \<Rightarrow> key list \<times> world \<Rightarrow> error + (key list \<times> world)" where
  "loadLoop px pz [] st = Inr st"
| "loadLoop px pz ((dx, dz) # rest) (active, w) =
     (let cx = px + dx;
          cz = pz + dz;
          k = getChunkKeyFromCoords cx 0 cz;
          active1 = List.insert k active
      in if map_of (chunks w) k = None
         then (case loadOrGenerateChunk cx cz w of
                 Inl e \<Rightarrow> Inl e
               | Inr w1 \<Rightarrow> loadLoop px pz rest (active1, w1))
         else loadLoop px pz rest (active1, w))"

text \<open>
  The loop \<open>for (const [key] of chunks)\<close>. It deletes only the entry it is
  visiting, which leaves the remaining entries and their order alone, so it visits
  the keys the map holds when the loop starts.
\<close>

fun unloadLoop :: "key list \<Rightarrow> key list \<Rightarrow> world \<Rightarrow> world" where
  "unloadLoop active [] w = w"
| "unloadLoop active (k # ks) w =
     unloadLoop active ks (if k \<notin> set active then unloadChunk k w else w)"

text \<open>\<open>updateChunks\<close>, given the camera's \<open>x\<close> and \<open>z\<close>.\<close>

definition updateChunks :: "real \<Rightarrow> real \<Rightarrow> world \<Rightarrow> error + world" where
  "updateChunks camx camz w =
     (let px = \<lfloor>camx / real_of_int CHUNK_SIZE\<rfloor>;
          pz = \<lfloor>camz / real_of_int CHUNK_SIZE\<rfloor>
      in case loadLoop px pz offsets ([], w) of
           Inl e \<Rightarrow> Inl e
         | Inr (active, w1) \<Rightarrow> Inr (unloadLoop active (map fst (chunks w1)) w1))"

section \<open>The states the program reaches\<close>

definition initialWorld :: world where
  "initialWorld = \<lparr>chunks = [], chunkData = Map.empty\<rparr>"

text \<open>
  The program starts with both maps empty. Each frame calls \<open>updateChunks\<close> with
  the camera's position. The mouse handler places a block at coordinates it has
  passed through \<open>snapToGrid\<close>, and destroys the block at the centre stored for
  the instance that was hit; the latter is covered by a removal at any snapped
  coordinates, since every stored centre is snapped (\<open>chunk_ok\<close> below).
\<close>

inductive reachable :: "world \<Rightarrow> bool" where
  start: "reachable initialWorld"
| tick: "reachable w \<Longrightarrow> updateChunks camx camz w = Inr w' \<Longrightarrow> reachable w'"
| place:
    "reachable w \<Longrightarrow>
     addBlockAt (snapToGrid x) (snapToGrid y) (snapToGrid z) type w = Inr (v, w') \<Longrightarrow>
     reachable w'"
| destroy:
    "reachable w \<Longrightarrow>
     removeBlockAt (snapToGrid x) (snapToGrid y) (snapToGrid z) w = Inr (v, w') \<Longrightarrow>
     reachable w'"

section \<open>Vectors of the collision code\<close>

text \<open>
  The value of a \<open>THREE.Vector3\<close>, with the arithmetic of its methods:
  \<open>length\<close> is \<open>Math.sqrt(x*x + y*y + z*z)\<close>, \<open>normalize\<close> is
  \<open>divideScalar(length() || 1)\<close>, that is, a multiplication by the inverse of
  the length, or of 1 when the length is 0.
\<close>

datatype vec3 = Vec real real real

fun vadd :: "vec3 \<Rightarrow> vec3 \<Rightarrow> vec3" where
  "vadd (Vec a b c) (Vec x y z) = Vec (a + x) (b + y) (c + z)"

fun vsub :: "vec3 \<Rightarrow> vec3 \<Rightarrow> vec3" where
  "vsub (Vec a b c) (Vec x y z) = Vec (a - x) (b - y) (c - z)"

fun vscale :: "vec3 \<Rightarrow> real \<Rightarrow> vec3" where
  "vscale (Vec a b c) k = Vec (a * k) (b * k) (c * k)"

fun vdot :: "vec3 \<Rightarrow> vec3 \<Rightarrow> real" where
  "vdot (Vec a b c) (Vec x y z) = a * x + b * y + c * z"

fun vlength :: "vec3 \<Rightarrow> real" where
  "vlength (Vec a b c) = sqrt (a * a + b * b + c * c)"

definition vnormalize :: "vec3 \<Rightarrow> vec3" where
  "vnormalize v = vscale v (1 / (if vlength v = 0 then 1 else vlength v))"

fun vclamp :: "vec3 \<Rightarrow> vec3 \<Rightarrow> vec3 \<Rightarrow> vec3" where
  "vclamp (Vec a b c) (Vec l0 l1 l2) (Vec h0 h1 h2) =
     Vec (max l0 (min h0 a)) (max l1 (min h1 b)) (max l2 (min h2 c))"

fun vx :: "vec3 \<Rightarrow> real" where "vx (Vec a b c) = a"
fun vy :: "vec3 \<Rightarrow> real" where "vy (Vec a b c) = b"
fun vz :: "vec3 \<Rightarrow> real" where "vz (Vec a b c) = c"

text \<open>
  The vector methods change the object they are called on and return that same
  object, so the vectors live in a store. The addresses are the module's reusable
  vectors, the two ends of \<open>playerCollider\<close>, the corners of \<open>tmpBox\<close>, the
  velocity, the scratch vector of the library's \<open>Box3\<close>, and the objects
  \<open>clone()\<close> creates.
\<close>

datatype vref =
  TmpVec | TmpVec2 | TmpClosest | TmpPos | ColliderStart | ColliderEnd
  | BoxMin | BoxMax | Velocity | BoxScratch | Obj nat

record vstore =
  vecs :: "vref \<Rightarrow> vec3"
  nextObj :: nat

definition vec_store :: "vref \<Rightarrow> vec3 \<Rightarrow> vstore \<Rightarrow> vstore" where
  "vec_store t v s = s\<lparr>vecs := (vecs s)(t := v)\<rparr>"

text \<open>\<open>t.copy(a)\<close>, \<open>t.add(a)\<close>, \<open>t.sub(a)\<close>, \<open>t.subVectors(a, b)\<close>.\<close>

definition vec_copy :: "vref \<Rightarrow> vref \<Rightarrow> vstore \<Rightarrow> vstore" where
  "vec_copy t a s = vec_store t (vecs s a) s"

definition vec_add :: "vref \<Rightarrow> vref \<Rightarrow> vstore \<Rightarrow> vstore" where
  "vec_add t a s = vec_store t (vadd (vecs s t) (vecs s a)) s"

definition vec_sub :: "vref \<Rightarrow> vref \<Rightarrow> vstore \<Rightarrow> vstore" where
  "vec_sub t a s = vec_store t (vsub (vecs s t) (vecs s a)) s"

definition vec_subVectors :: "vref \<Rightarrow> vref \<Rightarrow> vref \<Rightarrow> vstore \<Rightarrow> vstore" where
  "vec_subVectors t a b s = vec_store t (vsub (vecs s a) (vecs s b)) s"

text \<open>\<open>t.multiplyScalar(k)\<close>, \<open>t.addScalar(k)\<close>, \<open>t.subScalar(k)\<close>, \<open>t.normalize()\<close>, \<open>t.set(x, y, z)\<close>.\<close>

definition vec_multiplyScalar :: "vref \<Rightarrow> real \<Rightarrow> vstore \<Rightarrow> vstore" where
  "vec_multiplyScalar t k s = vec_store t (vscale (vecs s t) k) s"

definition vec_addScalar :: "vref \<Rightarrow> real \<Rightarrow> vstore \<Rightarrow> vstore" where
  "vec_addScalar t k s = vec_store t (vadd (vecs s t) (Vec k k k)) s"

definition vec_subScalar :: "vref \<Rightarrow> real \<Rightarrow> vstore \<Rightarrow> vstore" where
  "vec_subScalar t k s = vec_store t (vsub (vecs s t) (Vec k k k)) s"

definition vec_normalize :: "vref \<Rightarrow> vstore \<Rightarrow> vstore" where
  "vec_normalize t s = vec_store t (vnormalize (vecs s t)) s"

definition vec_set :: "vref \<Rightarrow> real \<Rightarrow> real \<Rightarrow> real \<Rightarrow> vstore \<Rightarrow> vstore" where
  "vec_set t x y z s = vec_store t (Vec x y z) s"

text \<open>\<open>a.clone()\<close>: a new object with the value of \<open>a\<close>.\<close>

definition vec_clone :: "vref \<Rightarrow> vstore \<Rightarrow> vref \<times> vstore" where
  "vec_clone a s =
     (Obj (nextObj s), s\<lparr>vecs := (vecs s)(Obj (nextObj s) := vecs s a), nextObj := Suc (nextObj s)\<rparr>)"

text \<open>\<open>a.length()\<close>, \<open>a.distanceTo(b)\<close>, \<open>a.dot(b)\<close> read the store only.\<close>

definition vec_length :: "vref \<Rightarrow> vstore \<Rightarrow> real" where
  "vec_length a s = vlength (vecs s a)"

definition vec_distanceTo :: "vref \<Rightarrow> vref \<Rightarrow> vstore \<Rightarrow> real" where
  "vec_distanceTo a b s = vlength (vsub (vecs s a) (vecs s b))"

definition vec_dot :: "vref \<Rightarrow> vref \<Rightarrow> vstore \<Rightarrow> real" where
  "vec_dot a b s = vdot (vecs s a) (vecs s b)"

text \<open>
  \<open>tmpBox.clampPoint(point, target)\<close> is \<open>target.copy(point).clamp(min, max)\<close>;
  \<open>tmpBox.setFromCenterAndSize(center, size)\<close> halves a copy of the size in the
  library's scratch vector and sets \<open>min\<close> and \<open>max\<close> to the centre minus and
  plus that half; \<open>playerCollider.translate(v)\<close> adds \<open>v\<close> to both ends.
\<close>

definition box_clampPoint :: "vref \<Rightarrow> vref \<Rightarrow> vstore \<Rightarrow> vstore" where
  "box_clampPoint point target s =
     (let s1 = vec_copy target point s
      in vec_store target (vclamp (vecs s1 target) (vecs s1 BoxMin) (vecs s1 BoxMax)) s1)"

definition box_setFromCenterAndSize :: "vref \<Rightarrow> vref \<Rightarrow> vstore \<Rightarrow> vstore" where
  "box_setFromCenterAndSize center sz s =
     (let s1 = vec_multiplyScalar BoxScratch (1/2) (vec_copy BoxScratch sz s);
          s2 = vec_sub BoxMin BoxScratch (vec_copy BoxMin center s1)
      in vec_add BoxMax BoxScratch (vec_copy BoxMax center s2))"

definition capsule_translate :: "vref \<Rightarrow> vstore \<Rightarrow> vstore" where
  "capsule_translate v s = vec_add ColliderEnd v (vec_add ColliderStart v s)"

section \<open>Collision (lines 349-400)\<close>

text \<open>The object \<open>{ correction: ..., normal: ... }\<close>: two references into the store.\<close>

record correction_result =
  correction :: vref
  normal :: vref

definition steps :: nat where
  "steps = 5"

text \<open>
  The loop of \<open>capsuleIntersectCorrection\<close> from sample \<open>i\<close> on, for the
  capsule \<open>playerCollider\<close> of the given radius and the box \<open>tmpBox\<close>.
  In the object it returns, \<open>correction\<close> is what \<open>pushDir.multiplyScalar(...)\<close>
  returns, which is \<open>pushDir\<close> itself, scaled in place: both fields refer to the
  same vector.
\<close>

function sampleLoop :: "real \<Rightarrow> real \<Rightarrow> nat \<Rightarrow> vstore \<Rightarrow> correction_result option \<times> vstore" where
  "sampleLoop radius segLen i s =
     (if i \<le> steps then
        let s1 = vec_add TmpVec ColliderStart
                   (vec_multiplyScalar TmpVec ((real i / real steps) * segLen)
                      (vec_copy TmpVec TmpVec2 s));
            s2 = box_clampPoint TmpVec TmpClosest s1;
            dist = vec_distanceTo TmpClosest TmpVec s2
        in if dist < radius then
             (case vec_clone TmpVec s2 of
                (pushDir, s3) \<Rightarrow>
                  let s4 = vec_normalize pushDir (vec_sub pushDir TmpClosest s3);
                      s5 = vec_multiplyScalar pushDir (radius - dist) s4
                  in (Some \<lparr>correction = pushDir, normal = pushDir\<rparr>, s5))
           else sampleLoop radius segLen (Suc i) s2
      else (None, s))"
  by pat_completeness auto
termination
  by (relation "measure (\<lambda>(radius, segLen, i, s). Suc steps - i)") auto

definition capsuleIntersectCorrection :: "real \<Rightarrow> vstore \<Rightarrow> correction_result option \<times> vstore" where
  "capsuleIntersectCorrection radius s =
     (let s1 = vec_subVectors TmpVec2 ColliderEnd ColliderStart s;
          segLen = vec_length TmpVec2 s1;
          s2 = vec_normalize TmpVec2 s1
      in sampleLoop radius segLen 0 s2)"

definition getChunkRecordAtCell :: "(key \<times> chunk_record) list \<Rightarrow> int \<Rightarrow> int \<Rightarrow> int \<Rightarrow> chunk_record option" where
  "getChunkRecordAtCell cs x y z =
     map_of cs (getChunkKey (real_of_int x) (real_of_int y) (real_of_int z))"

text \<open>
  The body of the innermost loop of \<open>resolveCollisions\<close> at the cell
  \<open>(x, y, z)\<close>; the state of the loops is the set \<open>visited\<close> and the store.
\<close>

definition collideCell ::
  "(key \<times> chunk_record) list \<Rightarrow> real \<Rightarrow> int \<times> int \<times> int \<Rightarrow> key list \<times> vstore \<Rightarrow> key list \<times> vstore" where
  "collideCell cs radius cell st =
     (case (cell, st) of ((x, y, z), (visited, s)) \<Rightarrow>
        (case getChunkRecordAtCell cs x y z of
           None \<Rightarrow> (visited, s)
         | Some rec \<Rightarrow>
             let ck = getCellKey (real_of_int x) (real_of_int y) (real_of_int z) in
             if ck \<in> set visited then (visited, s)
             else
               let visited1 = ck # visited in
               if occupancy rec ck = None then (visited1, s)
               else
                 let s1 = vec_set TmpPos (real_of_int x + 1/2) (real_of_int y + 1/2) (real_of_int z + 1/2) s;
                     s2 = vec_set TmpVec 1 1 1 s1;
                     s3 = box_setFromCenterAndSize TmpPos TmpVec s2
                 in (case capsuleIntersectCorrection radius s3 of
                       (None, s4) \<Rightarrow> (visited1, s4)
                     | (Some result, s4) \<Rightarrow>
                        (let s5 = capsule_translate (correction result) s4;
                             d = vec_dot Velocity (normal result) s5
                         in (case vec_clone (normal result) s5 of
                               (n, s6) \<Rightarrow>
                                 (visited1, vec_sub Velocity n (vec_multiplyScalar n d s6)))))))"

definition capsuleRadius :: real where
  "capsuleRadius = 35/100"

definition resolveCollisions :: "(key \<times> chunk_record) list \<Rightarrow> vstore \<Rightarrow> vstore" where
  "resolveCollisions cs s =
     (case vec_clone ColliderStart s of
        (lo, s1) \<Rightarrow>
          (case vec_clone ColliderEnd (vec_subScalar lo (capsuleRadius + cubeSize) s1) of
             (hi, s2) \<Rightarrow>
               let s3 = vec_addScalar hi (capsuleRadius + cubeSize) s2;
                   cells = [(x, y, z).
                              x \<leftarrow> [\<lfloor>vx (vecs s3 lo)\<rfloor> .. \<lfloor>vx (vecs s3 hi)\<rfloor>],
                              y \<leftarrow> [\<lfloor>vy (vecs s3 lo)\<rfloor> .. \<lfloor>vy (vecs s3 hi)\<rfloor>],
                              z \<leftarrow> [\<lfloor>vz (vecs s3 lo)\<rfloor> .. \<lfloor>vz (vecs s3 hi)\<rfloor>]]
               in snd (fold (collideCell cs capsuleRadius) cells ([], s3))))"

section \<open>Pure geometry, to state what the collision code computes\<close>

text \<open>
  The \<open>i\<close>-th sample on the segment from \<open>a\<close> to \<open>e\<close>, the closest point of
  the unit cube of the cell \<open>(x, y, z)\<close> to a point, and the distance between
  the two.
\<close>

definition samplePoint :: "vec3 \<Rightarrow> vec3 \<Rightarrow> nat \<Rightarrow> vec3" where
  "samplePoint a e i =
     vadd (vscale (vnormalize (vsub e a)) ((real i / real steps) * vlength (vsub e a))) a"

definition cubeMin :: "int \<times> int \<times> int \<Rightarrow> vec3" where
  "cubeMin cell = (case cell of (x, y, z) \<Rightarrow> Vec (real_of_int x) (real_of_int y) (real_of_int z))"

definition cubeMax :: "int \<times> int \<times> int \<Rightarrow> vec3" where
  "cubeMax cell =
     (case cell of (x, y, z) \<Rightarrow> Vec (real_of_int x + 1) (real_of_int y + 1) (real_of_int z + 1))"

definition closestPoint :: "int \<times> int \<times> int \<Rightarrow> vec3 \<Rightarrow> vec3" where
  "closestPoint cell p = vclamp p (cubeMin cell) (cubeMax cell)"

definition sampleDist :: "int \<times> int \<times> int \<Rightarrow> vec3 \<Rightarrow> vec3 \<Rightarrow> nat \<Rightarrow> real" where
  "sampleDist cell a e i =
     vlength (vsub (closestPoint cell (samplePoint a e i)) (samplePoint a e i))"

section \<open>Invariants of the chunk store\<close>

text \<open>
  The predicates below state what holds of every state the program reaches; they
  are used to state and prove the properties, and are not part of the program.
\<close>

definition cellCentre :: "key \<Rightarrow> mat4" where
  "cellCentre c =
     Translation (real_of_int (keyX c) + 1/2) (real_of_int (keyY c) + 1/2) (real_of_int (keyZ c) + 1/2)"

definition snapped :: "real \<Rightarrow> bool" where
  "snapped v \<longleftrightarrow> snapToGrid v = v"

definition slots_ok :: "chunk_record \<Rightarrow> btype \<Rightarrow> nat \<Rightarrow> bool" where
  "slots_ok r t n \<longleftrightarrow>
     length (cellsByIndex r t) = n \<and>
     n \<le> capacities r t \<and>
     (\<forall>i<n. \<exists>c. cellsByIndex r t ! i = Some c \<and> indexMaps r t c = Some i) \<and>
     (\<forall>c i. indexMaps r t c = Some i \<longrightarrow> i < n \<and> cellsByIndex r t ! i = Some c) \<and>
     (case meshes r t of
        None \<Rightarrow> capacities r t = 0
      | Some m \<Rightarrow>
          length (instanceMatrix m) = capacities r t \<and>
          (\<forall>c i. indexMaps r t c = Some i \<longrightarrow> instanceMatrix m ! i = cellCentre c))"

definition batch_ok :: "chunk_record \<Rightarrow> btype \<Rightarrow> bool" where
  "batch_ok r t \<longleftrightarrow>
     slots_ok r t (counts r t) \<and>
     (\<forall>c. (occupancy r c = Some t) = (indexMaps r t c \<noteq> None)) \<and>
     (\<forall>m. meshes r t = Some m \<longrightarrow> drawCount m = counts r t)"

definition entryCell :: "entry \<Rightarrow> key" where
  "entryCell e = (case e of (x, y, z, t) \<Rightarrow> getCellKey x y z)"

definition entrySnapped :: "entry \<Rightarrow> bool" where
  "entrySnapped e = (case e of (x, y, z, t) \<Rightarrow> snapped x \<and> snapped y \<and> snapped z)"

definition data_ok :: "entry list \<Rightarrow> bool" where
  "data_ok arr \<longleftrightarrow> distinct (map entryCell arr) \<and> (\<forall>e\<in>set arr. entrySnapped e)"

definition occ_matches :: "chunk_record \<Rightarrow> entry list \<Rightarrow> bool" where
  "occ_matches r arr \<longleftrightarrow>
     (\<forall>c t. (occupancy r c = Some t) = (\<exists>x y z. (x, y, z, t) \<in> set arr \<and> getCellKey x y z = c))"

definition chunk_ok :: "world \<Rightarrow> key \<Rightarrow> chunk_record \<Rightarrow> bool" where
  "chunk_ok w k r \<longleftrightarrow>
     keyY k = 0 \<and> batch_ok r Green \<and> batch_ok r Brown \<and>
     (\<exists>arr. chunkData w k = Some arr \<and> occ_matches r arr)"

definition world_ok :: "world \<Rightarrow> bool" where
  "world_ok w \<longleftrightarrow>
     (\<forall>k r. map_of (chunks w) k = Some r \<longrightarrow> chunk_ok w k r) \<and>
     (\<forall>k arr. chunkData w k = Some arr \<longrightarrow> data_ok arr)"

definition placedCell :: "placed \<Rightarrow> key" where
  "placedCell p = (case p of (x, y, z, ck) \<Rightarrow> ck)"

definition placedSnapped :: "placed \<Rightarrow> bool" where
  "placedSnapped p =
     (case p of (x, y, z, ck) \<Rightarrow> snapped x \<and> snapped y \<and> snapped z \<and> getCellKey x y z = ck)"

definition itemsOf :: "btype \<Rightarrow> entry list \<Rightarrow> placed list" where
  "itemsOf t arr =
     map (\<lambda>(x, y, z, t'). (x, y, z, getCellKey x y z)) (filter (\<lambda>(x, y, z, t'). t' = t) arr)"

fun occOf :: "entry list \<Rightarrow> (key \<rightharpoonup> btype) \<Rightarrow> (key \<rightharpoonup> btype)" where
  "occOf [] m = m"
| "occOf ((x, y, z, t) # arr) m = occOf arr (m(getCellKey x y z \<mapsto> t))"

text \<open>
  What a chunk that is not resident is built from: its array in \<open>chunkData\<close>
  when there is one, the generated array otherwise.
\<close>

definition chunkSource :: "world \<Rightarrow> key \<Rightarrow> entry list" where
  "chunkSource w k =
     (case chunkData w k of
        Some arr \<Rightarrow> arr
      | None \<Rightarrow> generateGroundArrayForChunk (keyX k) (keyZ k))"

text \<open>
  The square neighbourhood of radius \<open>RENDER_DISTANCE\<close> (Chebyshev distance in
  the x,z plane) around the chunk coordinate \<open>(px, 0, pz)\<close>.
\<close>

definition neighbourhood :: "int \<Rightarrow> int \<Rightarrow> key set" where
  "neighbourhood px pz =
     {k. keyY k = 0 \<and> \<bar>keyX k - px\<bar> \<le> RENDER_DISTANCE \<and> \<bar>keyZ k - pz\<bar> \<le> RENDER_DISTANCE}"

section \<open>Example states\<close>

text \<open>
  The world after the first frame with the camera above the origin, and after
  placing, destroying and placing again a block at the cell \<open>(0, 3, 0)\<close>, on
  top of the generated ground.
\<close>

definition firstWorld :: world where
  "firstWorld = projr (updateChunks 0 0 initialWorld)"

definition placedWorld :: world where
  "placedWorld = snd (projr (addBlockAt (1/2) (7/2) (1/2) Brown firstWorld))"

definition removedWorld :: world where
  "removedWorld = snd (projr (removeBlockAt (1/2) (7/2) (1/2) placedWorld))"

definition replacedWorld :: world where
  "replacedWorld = snd (projr (addBlockAt (1/2) (7/2) (1/2) Brown removedWorld))"

text \<open>The record of a resident chunk.\<close>

definition recordAt :: "world \<Rightarrow> key \<Rightarrow> chunk_record" where
  "recordAt w k = the (map_of (chunks w) k)"

text \<open>
  A record with one placed block in a store of capacity 8, as \<open>addBlockAt\<close>
  leaves it after the first block of a material.
\<close>

definition oneBlockRecord :: chunk_record where
  "oneBlockRecord =
     \<lparr>occupancy = [Key 0 3 0 \<mapsto> Brown],
      meshes = (\<lambda>_. None)
        (Brown := Some \<lparr>instanceMatrix = Translation (1/2) (7/2) (1/2) # replicate 7 ZeroMatrix,
                        drawCount = 1\<rparr>),
      indexMaps = (\<lambda>_. Map.empty)(Brown := [Key 0 3 0 \<mapsto> 0]),
      cellsByIndex = (\<lambda>_. [])(Brown := [Some (Key 0 3 0)]),
      counts = (\<lambda>_. 0)(Brown := 1),
      capacities = (\<lambda>_. 0)(Brown := 8)\<rparr>"

text \<open>
  Two states of the vector store. In the first the player jumps, moving sideways as
  well, under the block placed at the cell \<open>(0, 3, 0)\<close>, whose underside is
  at height 3: the feet are at height \<open>3/2\<close> and the head, \<open>5/4\<close>
  higher, is a quarter below the block. In the second the player falls and the feet
  are at height \<open>3/4\<close>, inside the ground cube of the cell \<open>(0, 0, 0)\<close>.
\<close>

definition jumpingStore :: vstore where
  "jumpingStore =
     \<lparr>vecs = (\<lambda>_. Vec 0 0 0)
        (ColliderStart := Vec (1/2) (3/2) (1/2),
         ColliderEnd := Vec (1/2) (11/4) (1/2),
         Velocity := Vec 1 1 0),
      nextObj = 0\<rparr>"

definition sunkStore :: vstore where
  "sunkStore =
     \<lparr>vecs = (\<lambda>_. Vec 0 0 0)
        (ColliderStart := Vec (1/2) (3/4) (1/2),
         ColliderEnd := Vec (1/2) 2 (1/2),
         Velocity := Vec 0 (-1) 0),
      nextObj = 0\<rparr>"

section \<open>The chunk store keeps its invariants\<close>

subsection \<open>snapping\<close>

lemma snapped_iff: "snapped v \<longleftrightarrow> v = real_of_int \<lfloor>v\<rfloor> + 1/2"
  by (auto simp: snapped_def snapToGrid_def cubeSize_def)

lemma snapped_snapToGrid [simp]: "snapped (snapToGrid v)"
proof -
  have "\<lfloor>real_of_int \<lfloor>v\<rfloor> + 1/2\<rfloor> = \<lfloor>v\<rfloor>"
    by linarith
  then show ?thesis
    by (simp add: snapped_def snapToGrid_def cubeSize_def)
qed

lemma snapped_centre:
  "snapped x \<Longrightarrow> snapped y \<Longrightarrow> snapped z \<Longrightarrow> Translation x y z = cellCentre (getCellKey x y z)"
  by (simp add: snapped_iff cellCentre_def getCellKey_def)

lemma snapped_same_cell:
  assumes "snapped x" "snapped y" "snapped z" "snapped a" "snapped b" "snapped c"
  shows "getCellKey a b c = getCellKey x y z \<longleftrightarrow> a = x \<and> b = y \<and> c = z"
  using assms by (auto simp: snapped_iff getCellKey_def)

subsection \<open>JavaScript arrays\<close>

lemma jsSet_append [simp]: "jsSet a (length a) v = a @ [Some v]"
  by (simp add: jsSet_def)

lemma jsSet_update: "i < length a \<Longrightarrow> jsSet a i v = a[i := Some v]"
  by (simp add: jsSet_def)

lemma jsSetLength_take: "n \<le> length a \<Longrightarrow> jsSetLength a n = take n a"
  by (simp add: jsSetLength_def)

lemma jsGet_nth: "i < length a \<Longrightarrow> jsGet a i = a ! i"
  by (simp add: jsGet_def)

subsection \<open>one more slot\<close>

lemma slots_ok_mesh:
  "slots_ok r t n \<Longrightarrow> n < capacities r t \<Longrightarrow>
   \<exists>m. meshes r t = Some m \<and> length (instanceMatrix m) = capacities r t"
  by (auto simp: slots_ok_def split: option.splits)

lemma slot_insert:
  assumes ok: "slots_ok r t n"
    and room: "n < capacities r t"
    and fresh: "indexMaps r t ck = None"
    and snap: "snapped x" "snapped y" "snapped z"
    and ck: "getCellKey x y z = ck"
  shows "\<exists>r1. setInstanceAt r t n x y z = Inr r1 \<and>
           slots_ok (r1\<lparr>indexMaps := (indexMaps r1)(t := (indexMaps r1 t)(ck \<mapsto> n)),
                        cellsByIndex := (cellsByIndex r1)(t := jsSet (cellsByIndex r1 t) n ck)\<rparr>) t (Suc n) \<and>
           occupancy r1 = occupancy r \<and> counts r1 = counts r \<and> capacities r1 = capacities r \<and>
           indexMaps r1 = indexMaps r \<and> cellsByIndex r1 = cellsByIndex r \<and>
           (\<forall>t'. t' \<noteq> t \<longrightarrow> meshes r1 t' = meshes r t')"
proof -
  from slots_ok_mesh[OF ok room] obtain m where
    m: "meshes r t = Some m" "length (instanceMatrix m) = capacities r t" by blast
  define r1 where "r1 = r\<lparr>meshes := (meshes r)(t := Some (setMatrixAt m n (Translation x y z)))\<rparr>"
  define r2 where "r2 = r1\<lparr>indexMaps := (indexMaps r1)(t := (indexMaps r1 t)(ck \<mapsto> n)),
                        cellsByIndex := (cellsByIndex r1)(t := jsSet (cellsByIndex r1 t) n ck)\<rparr>"
  have set: "setInstanceAt r t n x y z = Inr r1"
    by (simp add: setInstanceAt_def m r1_def)
  have len: "length (cellsByIndex r t) = n"
    using ok by (simp add: slots_ok_def)
  have fwd: "\<And>i. i < n \<Longrightarrow> \<exists>c. cellsByIndex r t ! i = Some c \<and> indexMaps r t c = Some i"
    using ok by (simp add: slots_ok_def)
  have bwd: "\<And>c i. indexMaps r t c = Some i \<Longrightarrow> i < n \<and> cellsByIndex r t ! i = Some c"
    using ok unfolding slots_ok_def by blast
  have mat: "\<And>c i. indexMaps r t c = Some i \<Longrightarrow> instanceMatrix m ! i = cellCentre c"
    using ok m unfolding slots_ok_def by simp
  have centre: "Translation x y z = cellCentre ck"
    using snapped_centre[OF snap] ck by simp
  have cells2: "cellsByIndex r2 t = cellsByIndex r t @ [Some ck]"
    using len by (simp add: r2_def r1_def jsSet_def)
  have idx2: "indexMaps r2 t = (indexMaps r t)(ck \<mapsto> n)"
    by (simp add: r2_def r1_def)
  have mesh2: "meshes r2 t = Some (setMatrixAt m n (Translation x y z))"
    by (simp add: r2_def r1_def)
  have cap2: "capacities r2 t = capacities r t"
    by (simp add: r2_def r1_def)
  have "slots_ok r2 t (Suc n)"
    unfolding slots_ok_def cells2 idx2 mesh2 cap2 option.case
  proof (intro conjI allI impI)
    show "length (cellsByIndex r t @ [Some ck]) = Suc n" using len by simp
    show "Suc n \<le> capacities r t" using room by simp
    show "length (instanceMatrix (setMatrixAt m n (Translation x y z))) = capacities r t"
      using m by (simp add: setMatrixAt_def)
  next
    fix i assume i: "i < Suc n"
    show "\<exists>c. (cellsByIndex r t @ [Some ck]) ! i = Some c \<and> ((indexMaps r t)(ck \<mapsto> n)) c = Some i"
    proof (cases "i = n")
      case True
      then show ?thesis using len by (intro exI[of _ ck]) (simp add: nth_append)
    next
      case False
      with i have "i < n" by simp
      from fwd[OF this] obtain c where c: "cellsByIndex r t ! i = Some c" "indexMaps r t c = Some i"
        by blast
      with fresh have "c \<noteq> ck" by auto
      with c \<open>i < n\<close> len show ?thesis by (intro exI[of _ c]) (simp add: nth_append)
    qed
  next
    fix c i assume a: "((indexMaps r t)(ck \<mapsto> n)) c = Some i"
    show "i < Suc n"
      using a bwd[of c i] by (auto split: if_splits)
    show "(cellsByIndex r t @ [Some ck]) ! i = Some c"
      using a bwd[of c i] len by (auto split: if_splits simp: nth_append)
    show "instanceMatrix (setMatrixAt m n (Translation x y z)) ! i = cellCentre c"
      using a bwd[of c i] mat[of c i] m room centre
      by (auto split: if_splits simp: setMatrixAt_def)
  qed
  with set show ?thesis
    unfolding r2_def by (intro exI[of _ r1]) (simp add: r1_def)
qed


subsection \<open>growing keeps the slots\<close>

lemma copyMatrices_length [simp]:
  "length (instanceMatrix (copyMatrices om n nm)) = length (instanceMatrix nm)"
  by (induction n) (simp_all add: setMatrixAt_def)

lemma copyMatrices_drawCount [simp]:
  "drawCount (copyMatrices om n nm) = drawCount nm"
  by (induction n) (simp_all add: setMatrixAt_def)

lemma copyMatrices_nth:
  "i < length (instanceMatrix nm) \<Longrightarrow>
   instanceMatrix (copyMatrices om n nm) ! i =
     (if i < n then getMatrixAt om i else instanceMatrix nm ! i)"
  by (induction n) (auto simp: setMatrixAt_def nth_list_update less_Suc_eq)

lemma ensureCapacity_frame [simp]:
  "occupancy (ensureCapacityForType r t needed) = occupancy r"
  "indexMaps (ensureCapacityForType r t needed) = indexMaps r"
  "cellsByIndex (ensureCapacityForType r t needed) = cellsByIndex r"
  "counts (ensureCapacityForType r t needed) = counts r"
  by (simp_all add: ensureCapacityForType_def Let_def)

lemma ensureCapacity_other [simp]:
  "t' \<noteq> t \<Longrightarrow> meshes (ensureCapacityForType r t needed) t' = meshes r t'"
  "t' \<noteq> t \<Longrightarrow> capacities (ensureCapacityForType r t needed) t' = capacities r t'"
  by (simp_all add: ensureCapacityForType_def Let_def)

lemma ensureCapacity_enough: "needed \<le> capacities (ensureCapacityForType r t needed) t"
  by (simp add: ensureCapacityForType_def Let_def)

lemma ensureCapacity_drawCount:
  "meshes r t = Some om \<Longrightarrow> drawCount om = counts r t \<Longrightarrow>
   meshes (ensureCapacityForType r t needed) t = Some m' \<Longrightarrow> drawCount m' = counts r t"
  by (auto simp: ensureCapacityForType_def Let_def split: if_splits)

lemma ensureCapacity_slots_ok:
  assumes ok: "slots_ok r t (counts r t)"
  shows "slots_ok (ensureCapacityForType r t needed) t (counts r t)"
proof (cases "needed \<le> capacities r t")
  case True
  then show ?thesis using ok by (simp add: ensureCapacityForType_def)
next
  case False
  let ?n = "counts r t"
  let ?cap = "max needed (max 8 (capacities r t * 2))"
  have bwd: "\<And>c i. indexMaps r t c = Some i \<Longrightarrow> i < ?n \<and> cellsByIndex r t ! i = Some c"
    using ok unfolding slots_ok_def by blast
  have le: "?n \<le> capacities r t" using ok by (simp add: slots_ok_def)
  show ?thesis
  proof (cases "meshes r t")
    case None
    with ok have "capacities r t = 0" by (simp add: slots_ok_def)
    with le have "?n = 0" by simp
    with ok False None show ?thesis
      by (auto simp: slots_ok_def ensureCapacityForType_def Let_def createInstancedMesh_def)
  next
    case (Some om)
    with ok have om: "length (instanceMatrix om) = capacities r t"
      "\<And>c i. indexMaps r t c = Some i \<Longrightarrow> instanceMatrix om ! i = cellCentre c"
      by (auto simp: slots_ok_def)
    have "\<And>c i. indexMaps r t c = Some i \<Longrightarrow>
            instanceMatrix (copyMatrices om ?n (createInstancedMesh ?cap)) ! i = cellCentre c"
    proof -
      fix c i assume a: "indexMaps r t c = Some i"
      with bwd have "i < ?n" by blast
      with le have "i < capacities r t" by simp
      then have "i < ?cap" by simp
      then show "instanceMatrix (copyMatrices om ?n (createInstancedMesh ?cap)) ! i = cellCentre c"
        using \<open>i < ?n\<close> \<open>i < capacities r t\<close> om a
        by (simp add: copyMatrices_nth createInstancedMesh_def getMatrixAt_def)
    qed
    with ok False Some le show ?thesis
      by (simp add: slots_ok_def ensureCapacityForType_def Let_def createInstancedMesh_def)
  qed
qed

subsection \<open>the loop over the elements of one material\<close>

lemma placeEach_ok:
  "slots_ok r t n \<Longrightarrow> n + length items \<le> capacities r t \<Longrightarrow>
   distinct (map placedCell items) \<Longrightarrow>
   (\<forall>p\<in>set items. indexMaps r t (placedCell p) = None \<and> placedSnapped p) \<Longrightarrow>
   \<exists>r'. placeEach t items n r = Inr r' \<and> slots_ok r' t (n + length items) \<and>
        dom (indexMaps r' t) = dom (indexMaps r t) \<union> placedCell ` set items \<and>
        occupancy r' = occupancy r \<and> counts r' = counts r \<and> capacities r' = capacities r \<and>
        (\<forall>t'. t' \<noteq> t \<longrightarrow> meshes r' t' = meshes r t' \<and> indexMaps r' t' = indexMaps r t' \<and>
                         cellsByIndex r' t' = cellsByIndex r t')"
proof (induction items arbitrary: r n)
  case Nil
  then show ?case by simp
next
  case (Cons p items)
  obtain x y z ck where p: "p = (x, y, z, ck)" by (cases p) auto
  from Cons.prems p have fresh: "indexMaps r t ck = None"
    and snap: "snapped x" "snapped y" "snapped z" "getCellKey x y z = ck"
    by (auto simp: placedCell_def placedSnapped_def)
  from Cons.prems have room: "n < capacities r t" by simp
  from slot_insert[OF Cons.prems(1) room fresh snap] obtain r1 where
    r1: "setInstanceAt r t n x y z = Inr r1"
    and ok1: "slots_ok (r1\<lparr>indexMaps := (indexMaps r1)(t := (indexMaps r1 t)(ck \<mapsto> n)),
                        cellsByIndex := (cellsByIndex r1)(t := jsSet (cellsByIndex r1 t) n ck)\<rparr>) t (Suc n)"
    and fr1: "occupancy r1 = occupancy r" "counts r1 = counts r" "capacities r1 = capacities r"
      "indexMaps r1 = indexMaps r" "cellsByIndex r1 = cellsByIndex r"
      "\<forall>t'. t' \<noteq> t \<longrightarrow> meshes r1 t' = meshes r t'"
    by blast
  let ?r2 = "r1\<lparr>indexMaps := (indexMaps r1)(t := (indexMaps r1 t)(ck \<mapsto> n)),
                        cellsByIndex := (cellsByIndex r1)(t := jsSet (cellsByIndex r1 t) n ck)\<rparr>"
  have room2: "Suc n + length items \<le> capacities ?r2 t"
    using Cons.prems(2) fr1 by simp
  have dist2: "distinct (map placedCell items)"
    using Cons.prems(3) by simp
  have pc: "placedCell p = ck"
    by (simp add: p placedCell_def)
  have notin: "ck \<notin> placedCell ` set items"
    using Cons.prems(3) pc by simp
  have fresh2: "\<forall>q\<in>set items. indexMaps ?r2 t (placedCell q) = None \<and> placedSnapped q"
  proof
    fix q assume q: "q \<in> set items"
    with notin have "placedCell q \<noteq> ck" by auto
    with q Cons.prems(4) fr1 show "indexMaps ?r2 t (placedCell q) = None \<and> placedSnapped q"
      by simp
  qed
  from Cons.IH[OF ok1 room2 dist2 fresh2] obtain r' where
    r': "placeEach t items (Suc n) ?r2 = Inr r'"
    and ok': "slots_ok r' t (Suc n + length items)"
    and dom': "dom (indexMaps r' t) = dom (indexMaps ?r2 t) \<union> placedCell ` set items"
    and fr': "occupancy r' = occupancy ?r2" "counts r' = counts ?r2" "capacities r' = capacities ?r2"
      "\<forall>t'. t' \<noteq> t \<longrightarrow> meshes r' t' = meshes ?r2 t' \<and> indexMaps r' t' = indexMaps ?r2 t' \<and>
                         cellsByIndex r' t' = cellsByIndex ?r2 t'"
    by blast
  have "placeEach t (p # items) n r = Inr r'"
    using r1 r' by (simp add: p)
  moreover have "dom (indexMaps r' t) = dom (indexMaps r t) \<union> placedCell ` set (p # items)"
    using dom' fr1 pc by auto
  ultimately show ?case
    using ok' fr' fr1 by (intro exI[of _ r']) simp
qed

lemma placeEach_total:
  "meshes r t \<noteq> None \<Longrightarrow>
   \<exists>r'. placeEach t items n r = Inr r' \<and> meshes r' t \<noteq> None \<and>
        occupancy r' = occupancy r \<and> capacities r' = capacities r"
proof (induction items arbitrary: r n)
  case Nil
  then show ?case by simp
next
  case (Cons p items)
  obtain x y z ck where p: "p = (x, y, z, ck)" by (cases p) auto
  from Cons.prems obtain m where m: "meshes r t = Some m" by auto
  show ?case
    using Cons.IH[of "(r\<lparr>meshes := (meshes r)(t := Some (setMatrixAt m n (Translation x y z)))\<rparr>)
                       \<lparr>indexMaps := (indexMaps r)(t := (indexMaps r t)(ck \<mapsto> n)),
                        cellsByIndex := (cellsByIndex r)(t := jsSet (cellsByIndex r t) n ck)\<rparr>" "Suc n"]
    by (simp add: p setInstanceAt_def m)
qed

subsection \<open>the first loop of the build\<close>

lemma other_type: "t \<noteq> Green \<longleftrightarrow> t = Brown"
  by (cases t) auto

lemma separateByType_eq:
  "separateByType arr (r, g, b) =
     (r\<lparr>occupancy := occOf arr (occupancy r)\<rparr>, g @ itemsOf Green arr, b @ itemsOf Brown arr)"
proof (induction arr arbitrary: r g b)
  case Nil
  then show ?case by (simp add: itemsOf_def)
next
  case (Cons e arr)
  obtain x y z t where e: "e = (x, y, z, t)" by (cases e) auto
  show ?case
    by (cases t) (simp_all add: e Cons.IH itemsOf_def Let_def)
qed

lemma occOf_other: "c \<notin> entryCell ` set arr \<Longrightarrow> occOf arr m c = m c"
proof (induction arr arbitrary: m)
  case Nil
  then show ?case by simp
next
  case (Cons e arr)
  obtain x y z t where e: "e = (x, y, z, t)" by (cases e) auto
  from Cons.prems show ?case
    by (simp add: e Cons.IH entryCell_def)
qed

lemma occOf_distinct:
  "distinct (map entryCell arr) \<Longrightarrow> c \<in> entryCell ` set arr \<Longrightarrow>
   (occOf arr m c = Some t) = (\<exists>x y z. (x, y, z, t) \<in> set arr \<and> getCellKey x y z = c)"
proof (induction arr arbitrary: m)
  case Nil
  then show ?case by simp
next
  case (Cons e arr)
  obtain x y z t' where e: "e = (x, y, z, t')" by (cases e) auto
  show ?case
  proof (cases "c \<in> entryCell ` set arr")
    case True
    have "entryCell e \<notin> entryCell ` set arr"
      using Cons.prems(1) by simp
    with True have "entryCell e \<noteq> c" by auto
    then have ne: "getCellKey x y z \<noteq> c"
      by (simp add: e entryCell_def)
    have "(occOf arr (m(getCellKey x y z \<mapsto> t')) c = Some t) =
          (\<exists>x y z. (x, y, z, t) \<in> set arr \<and> getCellKey x y z = c)"
      using Cons.IH[OF _ True] Cons.prems(1) by simp
    with ne show ?thesis by (auto simp: e)
  next
    case False
    with Cons.prems(2) have "entryCell e = c" by auto
    then have eq: "getCellKey x y z = c"
      by (simp add: e entryCell_def)
    have no: "\<And>a b d u. (a, b, d, u) \<in> set arr \<Longrightarrow> getCellKey a b d \<noteq> c"
      using False by (force simp: entryCell_def)
    have "occOf arr (m(getCellKey x y z \<mapsto> t')) c = Some t'"
      using occOf_other[OF False] eq by simp
    with eq no show ?thesis by (auto simp: e)
  qed
qed

lemma occOf_empty: "c \<notin> entryCell ` set arr \<Longrightarrow> occOf arr Map.empty c = None"
  by (simp add: occOf_other)

lemma occOf_matches:
  assumes "distinct (map entryCell arr)"
  shows "(occOf arr Map.empty c = Some t) = (\<exists>x y z. (x, y, z, t) \<in> set arr \<and> getCellKey x y z = c)"
proof (cases "c \<in> entryCell ` set arr")
  case True
  then show ?thesis by (rule occOf_distinct[OF assms])
next
  case False
  then have "\<And>a b d u. (a, b, d, u) \<in> set arr \<Longrightarrow> getCellKey a b d \<noteq> c"
    by (force simp: entryCell_def)
  with occOf_empty[OF False] show ?thesis by auto
qed

lemma itemsOf_cells:
  "placedCell ` set (itemsOf t arr) = {c. \<exists>x y z. (x, y, z, t) \<in> set arr \<and> getCellKey x y z = c}"
  by (force simp: itemsOf_def placedCell_def image_iff)

lemma itemsOf_snapped:
  "\<forall>e\<in>set arr. entrySnapped e \<Longrightarrow> \<forall>p\<in>set (itemsOf t arr). placedSnapped p"
  by (auto simp: itemsOf_def placedSnapped_def entrySnapped_def)

lemma itemsOf_distinct:
  "distinct (map entryCell arr) \<Longrightarrow> distinct (map placedCell (itemsOf t arr))"
proof -
  have "map placedCell (itemsOf t arr) = map entryCell (filter (\<lambda>(x, y, z, t'). t' = t) arr)"
    by (auto simp: itemsOf_def placedCell_def entryCell_def)
  then show "distinct (map entryCell arr) \<Longrightarrow> distinct (map placedCell (itemsOf t arr))"
    by (simp add: distinct_map_filter)
qed

subsection \<open>what the invariants read\<close>

lemma slots_ok_cong:
  assumes "cellsByIndex r' t = cellsByIndex r t" "indexMaps r' t = indexMaps r t"
    "capacities r' t = capacities r t"
    "map_option instanceMatrix (meshes r' t) = map_option instanceMatrix (meshes r t)"
  shows "slots_ok r' t n = slots_ok r t n"
proof (cases "meshes r t")
  case None
  with assms(4) have "meshes r' t = None" by simp
  with None assms(1-3) show ?thesis by (simp add: slots_ok_def)
next
  case (Some m)
  with assms(4) obtain m' where "meshes r' t = Some m'" "instanceMatrix m' = instanceMatrix m"
    by auto
  with Some assms(1-3) show ?thesis by (simp add: slots_ok_def)
qed

lemma batch_ok_cong:
  "cellsByIndex r' t = cellsByIndex r t \<Longrightarrow> indexMaps r' t = indexMaps r t \<Longrightarrow>
   capacities r' t = capacities r t \<Longrightarrow> meshes r' t = meshes r t \<Longrightarrow>
   counts r' t = counts r t \<Longrightarrow>
   (\<And>c. (occupancy r' c = Some t) = (occupancy r c = Some t)) \<Longrightarrow>
   batch_ok r' t = batch_ok r t"
proof -
  assume a: "cellsByIndex r' t = cellsByIndex r t" "indexMaps r' t = indexMaps r t"
    "capacities r' t = capacities r t" "meshes r' t = meshes r t" "counts r' t = counts r t"
    and occ: "\<And>c. (occupancy r' c = Some t) = (occupancy r c = Some t)"
  have "slots_ok r' t (counts r t) = slots_ok r t (counts r t)"
    using a by (intro slots_ok_cong) simp_all
  then show ?thesis
    unfolding batch_ok_def using a occ by simp
qed

lemma setDrawCount_Some:
  "meshes r t = Some m \<Longrightarrow>
   setDrawCount r t = Inr (r\<lparr>meshes := (meshes r)(t := Some (m\<lparr>drawCount := counts r t\<rparr>))\<rparr>)"
  by (simp add: setDrawCount_def)

lemma slots_ok_empty:
  "meshes r t = None \<Longrightarrow> capacities r t = 0 \<Longrightarrow> cellsByIndex r t = [] \<Longrightarrow>
   indexMaps r t = Map.empty \<Longrightarrow> slots_ok r t 0"
  by (simp add: slots_ok_def)

lemma populate_ok:
  assumes empty: "meshes r t = None" "capacities r t = 0" "cellsByIndex r t = []"
      "indexMaps r t = Map.empty" "counts r t = 0"
    and items: "distinct (map placedCell items)" "\<forall>p\<in>set items. placedSnapped p"
  shows "\<exists>r'. populate t items r = Inr r' \<and> slots_ok r' t (counts r' t) \<and>
           counts r' t = length items \<and> dom (indexMaps r' t) = placedCell ` set items \<and>
           (\<forall>m. meshes r' t = Some m \<longrightarrow> drawCount m = counts r' t) \<and>
           occupancy r' = occupancy r \<and>
           (\<forall>t'. t' \<noteq> t \<longrightarrow> meshes r' t' = meshes r t' \<and> indexMaps r' t' = indexMaps r t' \<and>
                cellsByIndex r' t' = cellsByIndex r t' \<and> counts r' t' = counts r t' \<and>
                capacities r' t' = capacities r t')"
proof (cases "items = []")
  case True
  with empty show ?thesis
    by (intro exI[of _ r]) (simp add: populate_def slots_ok_empty)
next
  case False
  let ?n = "length items"
  let ?r1 = "ensureCapacityForType r t ?n"
  have ok0: "slots_ok r t (counts r t)"
    using empty by (simp add: slots_ok_empty)
  have ok1: "slots_ok ?r1 t 0"
    using ensureCapacity_slots_ok[OF ok0, of ?n] empty by simp
  have room: "0 + ?n \<le> capacities ?r1 t"
    using ensureCapacity_enough[of ?n r t] by simp
  have fresh: "\<forall>p\<in>set items. indexMaps ?r1 t (placedCell p) = None \<and> placedSnapped p"
    using items empty by simp
  from placeEach_ok[OF ok1 room items(1) fresh] obtain r2 where
    r2: "placeEach t items 0 ?r1 = Inr r2"
    and ok2: "slots_ok r2 t ?n"
    and dom2: "dom (indexMaps r2 t) = placedCell ` set items"
    and fr2: "occupancy r2 = occupancy r" "counts r2 = counts r" "capacities r2 = capacities ?r1"
      "\<forall>t'. t' \<noteq> t \<longrightarrow> meshes r2 t' = meshes ?r1 t' \<and> indexMaps r2 t' = indexMaps ?r1 t' \<and>
                         cellsByIndex r2 t' = cellsByIndex ?r1 t'"
    using empty by auto
  let ?r3 = "r2\<lparr>counts := (counts r2)(t := ?n)\<rparr>"
  from False ok2 have "capacities r2 t \<noteq> 0"
    by (cases items) (auto simp: slots_ok_def)
  with ok2 obtain m where m: "meshes r2 t = Some m"
    by (auto simp: slots_ok_def split: option.splits)
  let ?r4 = "?r3\<lparr>meshes := (meshes ?r3)(t := Some (m\<lparr>drawCount := counts ?r3 t\<rparr>))\<rparr>"
  have r4: "setDrawCount ?r3 t = Inr ?r4"
    using m by (simp add: setDrawCount_Some)
  have pop: "populate t items r = Inr ?r4"
    using False r2 r4 by (simp add: populate_def)
  have "slots_ok ?r4 t ?n = slots_ok r2 t ?n"
    using m by (intro slots_ok_cong) simp_all
  with ok2 have ok4: "slots_ok ?r4 t ?n" by simp
  show ?thesis
    using pop ok4 dom2 fr2 by (intro exI[of _ ?r4]) simp
qed

lemma populate_total:
  assumes "capacities r t = 0"
  shows "\<exists>r'. populate t items r = Inr r' \<and> occupancy r' = occupancy r \<and>
           (\<forall>t'. t' \<noteq> t \<longrightarrow> capacities r' t' = capacities r t')"
proof (cases "items = []")
  case True
  then show ?thesis by (simp add: populate_def)
next
  case False
  let ?r1 = "ensureCapacityForType r t (length items)"
  from False assms have "meshes ?r1 t \<noteq> None"
    by (simp add: ensureCapacityForType_def Let_def)
  from placeEach_total[OF this, of items 0] obtain r2 where
    r2: "placeEach t items 0 ?r1 = Inr r2" "meshes r2 t \<noteq> None"
      "occupancy r2 = occupancy ?r1" "capacities r2 = capacities ?r1"
    by blast
  then obtain m where m: "meshes r2 t = Some m" by auto
  show ?thesis
    using False r2 m by (simp add: populate_def setDrawCount_def)
qed

subsection \<open>the record built from an array\<close>

lemma buildRecord_total: "\<exists>r. buildRecord arr = Inr r \<and> occupancy r = occOf arr Map.empty"
proof -
  let ?r0 = "makeEmptyChunkRecord\<lparr>occupancy := occOf arr Map.empty\<rparr>"
  have sep: "separateByType arr (makeEmptyChunkRecord, [], []) =
               (?r0, itemsOf Green arr, itemsOf Brown arr)"
    by (simp add: separateByType_eq makeEmptyChunkRecord_def)
  have "capacities ?r0 Green = 0"
    by (simp add: makeEmptyChunkRecord_def)
  from populate_total[OF this, of "itemsOf Green arr"] obtain r1 where
    r1: "populate Green (itemsOf Green arr) ?r0 = Inr r1" "occupancy r1 = occupancy ?r0"
      "capacities r1 Brown = capacities ?r0 Brown"
    by auto
  then have "capacities r1 Brown = 0"
    by (simp add: makeEmptyChunkRecord_def)
  from populate_total[OF this, of "itemsOf Brown arr"] obtain r2 where
    r2: "populate Brown (itemsOf Brown arr) r1 = Inr r2" "occupancy r2 = occupancy r1"
    by auto
  show ?thesis
    using sep r1 r2 by (simp add: buildRecord_def)
qed

lemma buildRecord_ok:
  assumes "data_ok arr"
  shows "\<exists>r. buildRecord arr = Inr r \<and> batch_ok r Green \<and> batch_ok r Brown \<and>
           occ_matches r arr \<and> occupancy r = occOf arr Map.empty \<and>
           counts r Green = length (itemsOf Green arr) \<and>
           counts r Brown = length (itemsOf Brown arr)"
proof -
  from assms have dist: "distinct (map entryCell arr)" and snap: "\<forall>e\<in>set arr. entrySnapped e"
    by (auto simp: data_ok_def)
  let ?r0 = "makeEmptyChunkRecord\<lparr>occupancy := occOf arr Map.empty\<rparr>"
  have sep: "separateByType arr (makeEmptyChunkRecord, [], []) =
               (?r0, itemsOf Green arr, itemsOf Brown arr)"
    by (simp add: separateByType_eq makeEmptyChunkRecord_def)
  have occ: "\<And>c t. (occOf arr Map.empty c = Some t) =
                (\<exists>x y z. (x, y, z, t) \<in> set arr \<and> getCellKey x y z = c)"
    by (rule occOf_matches[OF dist])
  have e0: "meshes ?r0 Green = None" "capacities ?r0 Green = 0" "cellsByIndex ?r0 Green = []"
      "indexMaps ?r0 Green = Map.empty" "counts ?r0 Green = 0"
    by (simp_all add: makeEmptyChunkRecord_def)
  from populate_ok[OF e0 itemsOf_distinct[OF dist, of Green] itemsOf_snapped[OF snap, of Green]]
  obtain r1 where
    r1: "populate Green (itemsOf Green arr) ?r0 = Inr r1"
    and ok1: "slots_ok r1 Green (counts r1 Green)" "counts r1 Green = length (itemsOf Green arr)"
      "dom (indexMaps r1 Green) = placedCell ` set (itemsOf Green arr)"
      "\<forall>m. meshes r1 Green = Some m \<longrightarrow> drawCount m = counts r1 Green"
    and fr1: "occupancy r1 = occupancy ?r0"
      "meshes r1 Brown = meshes ?r0 Brown" "indexMaps r1 Brown = indexMaps ?r0 Brown"
      "cellsByIndex r1 Brown = cellsByIndex ?r0 Brown" "counts r1 Brown = counts ?r0 Brown"
      "capacities r1 Brown = capacities ?r0 Brown"
    by auto
  have e1: "meshes r1 Brown = None" "capacities r1 Brown = 0" "cellsByIndex r1 Brown = []"
      "indexMaps r1 Brown = Map.empty" "counts r1 Brown = 0"
    using fr1 by (simp_all add: makeEmptyChunkRecord_def)
  from populate_ok[OF e1 itemsOf_distinct[OF dist, of Brown] itemsOf_snapped[OF snap, of Brown]]
  obtain r2 where
    r2: "populate Brown (itemsOf Brown arr) r1 = Inr r2"
    and ok2: "slots_ok r2 Brown (counts r2 Brown)" "counts r2 Brown = length (itemsOf Brown arr)"
      "dom (indexMaps r2 Brown) = placedCell ` set (itemsOf Brown arr)"
      "\<forall>m. meshes r2 Brown = Some m \<longrightarrow> drawCount m = counts r2 Brown"
    and fr2: "occupancy r2 = occupancy r1"
      "meshes r2 Green = meshes r1 Green" "indexMaps r2 Green = indexMaps r1 Green"
      "cellsByIndex r2 Green = cellsByIndex r1 Green" "counts r2 Green = counts r1 Green"
      "capacities r2 Green = capacities r1 Green"
    by auto
  have build: "buildRecord arr = Inr r2"
    using sep r1 r2 by (simp add: buildRecord_def)
  have occ2: "occupancy r2 = occOf arr Map.empty"
    using fr1 fr2 by simp
  have link: "\<And>t c. (occupancy r2 c = Some t) = (c \<in> placedCell ` set (itemsOf t arr))"
    unfolding occ2 occ itemsOf_cells by simp
  have "slots_ok r2 Green (counts r1 Green) = slots_ok r1 Green (counts r1 Green)"
    using fr2 by (intro slots_ok_cong) simp_all
  with ok1(1) fr2 have okG: "slots_ok r2 Green (counts r2 Green)" by simp
  have "batch_ok r2 Green"
    unfolding batch_ok_def using okG link[of _ Green] ok1 fr2 by (auto simp: domIff set_eq_iff)
  moreover have "batch_ok r2 Brown"
    unfolding batch_ok_def using ok2 link[of _ Brown] by (auto simp: domIff set_eq_iff)
  moreover have "occ_matches r2 arr"
    unfolding occ_matches_def occ2 using occ by simp
  ultimately show ?thesis
    using build occ2 ok1(2) ok2(2) fr2 by (intro exI[of _ r2]) simp
qed

subsection \<open>the generated array\<close>

lemma length_concat_const:
  "(\<And>x. x \<in> set xs \<Longrightarrow> length (f x) = n) \<Longrightarrow> length (concat (map f xs)) = length xs * n"
  by (induction xs) auto

lemma generate_length: "length (generateGroundArrayForChunk cx cz) = 768"
  by (simp add: generateGroundArrayForChunk_def CHUNK_SIZE_def length_concat_const)

lemma generate_set:
  "set (generateGroundArrayForChunk cx cz) =
     (\<lambda>(x, z, y). (real_of_int (cx * CHUNK_SIZE + x) + 1/2, real_of_int y + 1/2,
                    real_of_int (cz * CHUNK_SIZE + z) + 1/2, Green)) ` ({0..15} \<times> {0..15} \<times> {0..2})"
  by (auto simp: generateGroundArrayForChunk_def CHUNK_SIZE_def image_iff)

lemma generate_distinct: "distinct (generateGroundArrayForChunk cx cz)"
proof -
  let ?f = "\<lambda>(x, z, y). (real_of_int (cx * CHUNK_SIZE + x) + 1/2, real_of_int y + 1/2,
                    real_of_int (cz * CHUNK_SIZE + z) + 1/2, Green)"
  let ?S = "{0..15} \<times> {0..15} \<times> {0..2} :: (int \<times> int \<times> int) set"
  have "inj_on ?f ?S"
    by (auto simp: inj_on_def)
  then have "card (?f ` ?S) = card ?S"
    by (rule card_image)
  also have "card ?S = 768"
    by (simp add: card_cartesian_product)
  finally have "card (set (generateGroundArrayForChunk cx cz)) = length (generateGroundArrayForChunk cx cz)"
    by (simp add: generate_set generate_length)
  then show ?thesis
    by (rule card_distinct)
qed

lemma floor_half: "\<lfloor>real_of_int n + 1/2\<rfloor> = n"
  by linarith

lemma snapped_half [simp]: "snapped (real_of_int n + 1/2)"
  by (simp add: snapped_iff floor_half)

lemma generate_entry:
  assumes "e \<in> set (generateGroundArrayForChunk cx cz)"
  obtains x z y where "0 \<le> x" "x \<le> 15" "0 \<le> z" "z \<le> 15" "0 \<le> y" "y \<le> 2"
    "e = (real_of_int (cx * CHUNK_SIZE + x) + 1/2, real_of_int y + 1/2,
          real_of_int (cz * CHUNK_SIZE + z) + 1/2, Green)"
  using assms unfolding generate_set by auto

lemma entryCell_half:
  "entryCell (real_of_int a + 1/2, real_of_int b + 1/2, real_of_int c + 1/2, t) = Key a b c"
  by (simp add: entryCell_def getCellKey_def floor_half)

lemma generate_data_ok: "data_ok (generateGroundArrayForChunk cx cz)"
proof -
  let ?arr = "generateGroundArrayForChunk cx cz"
  have "inj_on entryCell (set ?arr)"
  proof (rule inj_onI)
    fix e1 e2 assume e1: "e1 \<in> set ?arr" and e2: "e2 \<in> set ?arr" and eq: "entryCell e1 = entryCell e2"
    from e1 obtain x1 z1 y1 where 1:
      "e1 = (real_of_int (cx * CHUNK_SIZE + x1) + 1/2, real_of_int y1 + 1/2,
          real_of_int (cz * CHUNK_SIZE + z1) + 1/2, Green)"
      by (rule generate_entry)
    from e2 obtain x2 z2 y2 where 2:
      "e2 = (real_of_int (cx * CHUNK_SIZE + x2) + 1/2, real_of_int y2 + 1/2,
          real_of_int (cz * CHUNK_SIZE + z2) + 1/2, Green)"
      by (rule generate_entry)
    from eq show "e1 = e2"
      unfolding 1 2 entryCell_half by simp
  qed
  then have "distinct (map entryCell ?arr)"
    using generate_distinct by (simp add: distinct_map)
  moreover have "\<forall>e\<in>set ?arr. entrySnapped e"
  proof
    fix e assume "e \<in> set ?arr"
    then obtain x z y where
      "e = (real_of_int (cx * CHUNK_SIZE + x) + 1/2, real_of_int y + 1/2,
          real_of_int (cz * CHUNK_SIZE + z) + 1/2, Green)"
      by (rule generate_entry)
    then show "entrySnapped e"
      unfolding entrySnapped_def by (simp only: prod.case snapped_half simp_thms)
  qed
  ultimately show ?thesis
    by (simp add: data_ok_def)
qed

subsection \<open>reading the invariants\<close>

lemma slots_okD:
  assumes "slots_ok r t n"
  shows "length (cellsByIndex r t) = n" "n \<le> capacities r t"
    "\<And>i. i < n \<Longrightarrow> \<exists>c. cellsByIndex r t ! i = Some c \<and> indexMaps r t c = Some i"
    "\<And>c i. indexMaps r t c = Some i \<Longrightarrow> i < n \<and> cellsByIndex r t ! i = Some c"
    "\<And>m c i. meshes r t = Some m \<Longrightarrow> indexMaps r t c = Some i \<Longrightarrow>
        instanceMatrix m ! i = cellCentre c"
    "\<And>m. meshes r t = Some m \<Longrightarrow> length (instanceMatrix m) = capacities r t"
    "meshes r t = None \<Longrightarrow> capacities r t = 0"
  using assms unfolding slots_ok_def by (auto split: option.splits)

lemma slots_okI:
  assumes "length (cellsByIndex r t) = n" "n \<le> capacities r t"
    "\<And>i. i < n \<Longrightarrow> \<exists>c. cellsByIndex r t ! i = Some c \<and> indexMaps r t c = Some i"
    "\<And>c i. indexMaps r t c = Some i \<Longrightarrow> i < n \<and> cellsByIndex r t ! i = Some c"
    "meshes r t = Some m" "length (instanceMatrix m) = capacities r t"
    "\<And>c i. indexMaps r t c = Some i \<Longrightarrow> instanceMatrix m ! i = cellCentre c"
  shows "slots_ok r t n"
  unfolding slots_ok_def using assms by simp

lemma batch_okD:
  assumes "batch_ok r t"
  shows "slots_ok r t (counts r t)"
    "\<And>c. (occupancy r c = Some t) = (indexMaps r t c \<noteq> None)"
    "\<And>m. meshes r t = Some m \<Longrightarrow> drawCount m = counts r t"
  using assms unfolding batch_ok_def by auto

lemma batch_ok_free:
  "batch_ok r t \<Longrightarrow> occupancy r c = None \<Longrightarrow> indexMaps r t c = None"
  using batch_okD(2)[of r t c] by auto


subsection \<open>adding a block\<close>

lemma add_record:
  assumes ok: "batch_ok r t" and free: "occupancy r ck = None"
    and snap: "snapped x" "snapped y" "snapped z" and ck: "getCellKey x y z = ck"
  defines "rec1 \<equiv> r\<lparr>occupancy := (occupancy r)(ck \<mapsto> t)\<rparr>"
  defines "rec2 \<equiv> ensureCapacityForType rec1 t (counts rec1 t + 1)"
  shows "\<exists>rec3 rec5.
      setInstanceAt rec2 t (counts rec2 t) x y z = Inr rec3 \<and>
      setDrawCount
        (rec3\<lparr>cellsByIndex := (cellsByIndex rec3)(t := jsSet (cellsByIndex rec3 t) (counts rec2 t) ck),
              indexMaps := (indexMaps rec3)(t := (indexMaps rec3 t)(ck \<mapsto> counts rec2 t)),
              counts := (counts rec3)(t := counts rec3 t + 1)\<rparr>) t = Inr rec5 \<and>
      batch_ok rec5 t \<and> occupancy rec5 = (occupancy r)(ck \<mapsto> t) \<and>
      indexMaps rec5 t = (indexMaps r t)(ck \<mapsto> counts r t) \<and>
      counts rec5 t = Suc (counts r t) \<and>
      (\<forall>t'. t' \<noteq> t \<longrightarrow> meshes rec5 t' = meshes r t' \<and> indexMaps rec5 t' = indexMaps r t' \<and>
            cellsByIndex rec5 t' = cellsByIndex r t' \<and> counts rec5 t' = counts r t' \<and>
            capacities rec5 t' = capacities r t')"
proof -
  let ?n = "counts r t"
  have n2: "counts rec2 t = ?n" and n1: "counts rec1 t = ?n"
    by (simp_all add: rec2_def rec1_def)
  have "slots_ok rec1 t ?n = slots_ok r t ?n"
    by (intro slots_ok_cong) (simp_all add: rec1_def)
  with batch_okD(1)[OF ok] have ok1: "slots_ok rec1 t (counts rec1 t)"
    by (simp add: n1)
  have ok2: "slots_ok rec2 t ?n"
    using ensureCapacity_slots_ok[OF ok1, of "counts rec1 t + 1"] by (simp add: rec2_def n1)
  have room: "?n < capacities rec2 t"
    using ensureCapacity_enough[of "counts rec1 t + 1" rec1 t] by (simp add: rec2_def n1)
  have fresh: "indexMaps rec2 t ck = None"
    using batch_ok_free[OF ok free] by (simp add: rec2_def rec1_def)
  from slot_insert[OF ok2 room fresh snap ck] obtain rec3 where
    r3: "setInstanceAt rec2 t ?n x y z = Inr rec3"
    and ok3: "slots_ok (rec3\<lparr>indexMaps := (indexMaps rec3)(t := (indexMaps rec3 t)(ck \<mapsto> ?n)),
                        cellsByIndex := (cellsByIndex rec3)(t := jsSet (cellsByIndex rec3 t) ?n ck)\<rparr>) t (Suc ?n)"
    and fr3: "occupancy rec3 = occupancy rec2" "counts rec3 = counts rec2" "capacities rec3 = capacities rec2"
      "indexMaps rec3 = indexMaps rec2" "cellsByIndex rec3 = cellsByIndex rec2"
      "\<forall>t'. t' \<noteq> t \<longrightarrow> meshes rec3 t' = meshes rec2 t'"
    by blast
  let ?rec3' = "rec3\<lparr>indexMaps := (indexMaps rec3)(t := (indexMaps rec3 t)(ck \<mapsto> ?n)),
                        cellsByIndex := (cellsByIndex rec3)(t := jsSet (cellsByIndex rec3 t) ?n ck)\<rparr>"
  let ?rec4 = "rec3\<lparr>cellsByIndex := (cellsByIndex rec3)(t := jsSet (cellsByIndex rec3 t) (counts rec2 t) ck),
              indexMaps := (indexMaps rec3)(t := (indexMaps rec3 t)(ck \<mapsto> counts rec2 t)),
              counts := (counts rec3)(t := counts rec3 t + 1)\<rparr>"
  have "slots_ok ?rec4 t (Suc ?n) = slots_ok ?rec3' t (Suc ?n)"
    by (intro slots_ok_cong) (simp_all add: n2)
  with ok3 have ok4: "slots_ok ?rec4 t (Suc ?n)" by simp
  then have "capacities ?rec4 t \<noteq> 0"
    by (auto dest: slots_okD(2))
  with slots_okD(7)[OF ok4] obtain m where m: "meshes ?rec4 t = Some m"
    by (cases "meshes ?rec4 t") auto
  let ?rec5 = "?rec4\<lparr>meshes := (meshes ?rec4)(t := Some (m\<lparr>drawCount := counts ?rec4 t\<rparr>))\<rparr>"
  have r5: "setDrawCount ?rec4 t = Inr ?rec5"
    using m by (rule setDrawCount_Some)
  have "slots_ok ?rec5 t (Suc ?n) = slots_ok ?rec4 t (Suc ?n)"
    using m by (intro slots_ok_cong) simp_all
  with ok4 have ok5: "slots_ok ?rec5 t (Suc ?n)" by simp
  have c5: "counts ?rec5 t = Suc ?n"
    using fr3 by (simp add: n2)
  have occ5: "occupancy ?rec5 = (occupancy r)(ck \<mapsto> t)"
    using fr3 by (simp add: rec2_def rec1_def)
  have idx5: "indexMaps ?rec5 t = (indexMaps r t)(ck \<mapsto> ?n)"
    using fr3 by (simp add: n2) (simp add: rec2_def rec1_def)
  have link: "\<And>c. (occupancy ?rec5 c = Some t) = (indexMaps ?rec5 t c \<noteq> None)"
    unfolding occ5 idx5 using batch_okD(2)[OF ok] by simp
  have "batch_ok ?rec5 t"
    unfolding batch_ok_def using ok5 link c5 by simp
  moreover have "\<forall>t'. t' \<noteq> t \<longrightarrow> meshes ?rec5 t' = meshes r t' \<and> indexMaps ?rec5 t' = indexMaps r t' \<and>
            cellsByIndex ?rec5 t' = cellsByIndex r t' \<and> counts ?rec5 t' = counts r t' \<and>
            capacities ?rec5 t' = capacities r t'"
    using fr3 by (simp add: rec2_def rec1_def)
  ultimately show ?thesis
    using r3 r5 occ5 idx5 c5 unfolding n2 by blast
qed

lemma addBlockAt_resident:
  assumes res: "map_of (chunks w) (getChunkKey x y z) = Some r"
    and free: "occupancy r (getCellKey x y z) = None"
    and ok: "batch_ok r t"
    and snap: "snapped x" "snapped y" "snapped z"
  shows "\<exists>r'. addBlockAt x y z t w =
           Inr (Undefined,
                \<lparr>chunks = AList.update (getChunkKey x y z) r' (chunks w),
                 chunkData = (chunkData w)
                   (getChunkKey x y z \<mapsto>
                      (case chunkData w (getChunkKey x y z) of None \<Rightarrow> [] | Some a \<Rightarrow> a) @ [(x, y, z, t)])\<rparr>) \<and>
         batch_ok r' t \<and> occupancy r' = (occupancy r)(getCellKey x y z \<mapsto> t) \<and>
         indexMaps r' t = (indexMaps r t)(getCellKey x y z \<mapsto> counts r t) \<and>
         counts r' t = Suc (counts r t) \<and>
         (\<forall>t'. t' \<noteq> t \<longrightarrow> meshes r' t' = meshes r t' \<and> indexMaps r' t' = indexMaps r t' \<and>
            cellsByIndex r' t' = cellsByIndex r t' \<and> counts r' t' = counts r t' \<and>
            capacities r' t' = capacities r t')"
proof -
  from add_record[OF ok free snap refl] obtain rec3 rec5 where
    a: "setInstanceAt (ensureCapacityForType (r\<lparr>occupancy := (occupancy r)(getCellKey x y z \<mapsto> t)\<rparr>) t
            (counts (r\<lparr>occupancy := (occupancy r)(getCellKey x y z \<mapsto> t)\<rparr>) t + 1)) t
          (counts (ensureCapacityForType (r\<lparr>occupancy := (occupancy r)(getCellKey x y z \<mapsto> t)\<rparr>) t
            (counts (r\<lparr>occupancy := (occupancy r)(getCellKey x y z \<mapsto> t)\<rparr>) t + 1)) t) x y z = Inr rec3"
    and b: "setDrawCount
        (rec3\<lparr>cellsByIndex := (cellsByIndex rec3)(t := jsSet (cellsByIndex rec3 t)
             (counts (ensureCapacityForType (r\<lparr>occupancy := (occupancy r)(getCellKey x y z \<mapsto> t)\<rparr>) t
            (counts (r\<lparr>occupancy := (occupancy r)(getCellKey x y z \<mapsto> t)\<rparr>) t + 1)) t) (getCellKey x y z)),
              indexMaps := (indexMaps rec3)(t := (indexMaps rec3 t)(getCellKey x y z \<mapsto>
             counts (ensureCapacityForType (r\<lparr>occupancy := (occupancy r)(getCellKey x y z \<mapsto> t)\<rparr>) t
            (counts (r\<lparr>occupancy := (occupancy r)(getCellKey x y z \<mapsto> t)\<rparr>) t + 1)) t)),
              counts := (counts rec3)(t := counts rec3 t + 1)\<rparr>) t = Inr rec5"
    and c: "batch_ok rec5 t" "occupancy rec5 = (occupancy r)(getCellKey x y z \<mapsto> t)"
      "indexMaps rec5 t = (indexMaps r t)(getCellKey x y z \<mapsto> counts r t)"
      "counts rec5 t = Suc (counts r t)"
      "\<forall>t'. t' \<noteq> t \<longrightarrow> meshes rec5 t' = meshes r t' \<and> indexMaps rec5 t' = indexMaps r t' \<and>
            cellsByIndex rec5 t' = cellsByIndex r t' \<and> counts rec5 t' = counts r t' \<and>
            capacities rec5 t' = capacities r t'"
    by blast
  have "addBlockAt x y z t w =
           Inr (Undefined,
                \<lparr>chunks = AList.update (getChunkKey x y z) rec5 (chunks w),
                 chunkData = (chunkData w)
                   (getChunkKey x y z \<mapsto>
                      (case chunkData w (getChunkKey x y z) of None \<Rightarrow> [] | Some a \<Rightarrow> a) @ [(x, y, z, t)])\<rparr>)"
    unfolding addBlockAt_def Let_def using res free a b by simp
  with c show ?thesis by blast
qed

subsection \<open>removing a block\<close>

lemma swap_fields_ok:
  assumes ok: "batch_ok r t" and idx: "indexMaps r t ck = Some i"
    and lc: "cellsByIndex r t ! (counts r t - 1) = Some lc"
    and m: "meshes r t = Some m"
    and cells': "cellsByIndex r' t = take (counts r t - 1) ((cellsByIndex r t)[i := Some lc])"
    and idx': "indexMaps r' t = ((indexMaps r t)(lc \<mapsto> i))(ck := None)"
    and m': "meshes r' t = Some m'"
      "instanceMatrix m' = (instanceMatrix m)[i := instanceMatrix m ! (counts r t - 1)]"
      "drawCount m' = counts r t - 1"
    and rest: "counts r' t = counts r t - 1" "capacities r' t = capacities r t"
      "occupancy r' = (occupancy r)(ck := None)"
  shows "batch_ok r' t"
proof -
  let ?n = "counts r t"
  let ?l = "?n - 1"
  let ?cs = "cellsByIndex r t"
  let ?ix = "indexMaps r t"
  note s = batch_okD(1)[OF ok]
  have len: "length ?cs = ?n" by (rule slots_okD(1)[OF s])
  have cap: "?n \<le> capacities r t" by (rule slots_okD(2)[OF s])
  have i: "i < ?n" "?cs ! i = Some ck"
    using slots_okD(4)[OF s idx] by auto
  then have l: "?l < ?n" by simp
  from slots_okD(3)[OF s l] lc have ixl: "?ix lc = Some ?l" by auto
  have mlen: "length (instanceMatrix m) = capacities r t"
    by (rule slots_okD(6)[OF s m])
  have inj: "\<And>c d j. ?ix c = Some j \<Longrightarrow> ?ix d = Some j \<Longrightarrow> c = d"
  proof -
    fix c d j assume cd: "?ix c = Some j" "?ix d = Some j"
    have "?cs ! j = Some c" using slots_okD(4)[OF s cd(1)] by simp
    moreover have "?cs ! j = Some d" using slots_okD(4)[OF s cd(2)] by simp
    ultimately show "c = d" by simp
  qed
  have "slots_ok r' t ?l"
  proof (rule slots_okI[where m = m'])
    show "length (cellsByIndex r' t) = ?l"
      using len by (simp add: cells')
    show "?l \<le> capacities r' t"
      using cap by (simp add: rest)
    show "meshes r' t = Some m'" by (rule m'(1))
    show "length (instanceMatrix m') = capacities r' t"
      using mlen by (simp add: m' rest)
  next
    fix j assume j: "j < ?l"
    show "\<exists>c. cellsByIndex r' t ! j = Some c \<and> indexMaps r' t c = Some j"
    proof (cases "j = i")
      case True
      with j ixl idx have "lc \<noteq> ck" by auto
      with True j len show ?thesis
        by (intro exI[of _ lc]) (simp add: cells' idx')
    next
      case False
      from j have "j < ?n" by simp
      from slots_okD(3)[OF s this] obtain c where c: "?cs ! j = Some c" "?ix c = Some j"
        by blast
      from c(2) idx False have "c \<noteq> ck" by auto
      moreover from c(2) ixl j have "c \<noteq> lc" by auto
      ultimately show ?thesis
        using c j False len by (intro exI[of _ c]) (simp add: cells' idx')
    qed
  next
    fix c j assume a: "indexMaps r' t c = Some j"
    then have cck: "c \<noteq> ck" by (auto simp: idx' split: if_splits)
    have "j < ?l \<and> cellsByIndex r' t ! j = Some c \<and> instanceMatrix m' ! j = cellCentre c"
    proof (cases "c = lc")
      case True
      with a cck have ji: "j = i" by (simp add: idx')
      from True cck ixl idx have "i \<noteq> ?l" using inj by blast
      with i have il: "i < ?l" by simp
      have "instanceMatrix m ! ?l = cellCentre lc"
        by (rule slots_okD(5)[OF s m ixl])
      with il ji True len i cap mlen show ?thesis
        by (simp add: cells' m')
    next
      case False
      with a cck have c: "?ix c = Some j" by (simp add: idx')
      from slots_okD(4)[OF s c] have j: "j < ?n" "?cs ! j = Some c" by auto
      from c ixl False have "j \<noteq> ?l" using inj by blast
      with j have jl: "j < ?l" by simp
      from c idx cck have ji: "j \<noteq> i" using inj by blast
      have "instanceMatrix m ! j = cellCentre c"
        by (rule slots_okD(5)[OF s m c])
      with jl ji j show ?thesis
        by (simp add: cells' m')
    qed
    then show "j < ?l \<and> cellsByIndex r' t ! j = Some c" "instanceMatrix m' ! j = cellCentre c"
      by auto
  qed
  moreover have "\<And>c. (occupancy r' c = Some t) = (indexMaps r' t c \<noteq> None)"
  proof -
    fix c
    show "(occupancy r' c = Some t) = (indexMaps r' t c \<noteq> None)"
    proof (cases "c = ck")
      case True
      then show ?thesis by (simp add: rest idx')
    next
      case False
      have "(occupancy r lc = Some t)"
        using batch_okD(2)[OF ok, of lc] ixl by simp
      with False show ?thesis
        using batch_okD(2)[OF ok, of c] ixl by (auto simp: rest idx')
    qed
  qed
  ultimately show ?thesis
    unfolding batch_ok_def using m' rest by simp
qed


lemma swapRemove_ok:
  assumes ok: "batch_ok r t" and occ: "occupancy r ck = Some t"
  shows "\<exists>r' i. indexMaps r t ck = Some i \<and> swapRemove r t ck = Inr r' \<and> batch_ok r' t \<and>
           occupancy r' = (occupancy r)(ck := None) \<and> Suc (counts r' t) = counts r t \<and>
           (\<forall>t'. t' \<noteq> t \<longrightarrow> meshes r' t' = meshes r t' \<and> indexMaps r' t' = indexMaps r t' \<and>
              cellsByIndex r' t' = cellsByIndex r t' \<and> counts r' t' = counts r t' \<and>
              capacities r' t' = capacities r t')"
proof -
  let ?n = "counts r t"
  let ?l = "?n - 1"
  let ?cs = "cellsByIndex r t"
  note s = batch_okD(1)[OF ok]
  from batch_okD(2)[OF ok, of ck] occ obtain i where idx: "indexMaps r t ck = Some i"
    by auto
  have len: "length ?cs = ?n" by (rule slots_okD(1)[OF s])
  have i: "i < ?n" "?cs ! i = Some ck"
    using slots_okD(4)[OF s idx] by auto
  then have n0: "?n \<noteq> 0" and l: "?l < ?n" by simp_all
  from slots_okD(3)[OF s l] obtain lc where lc: "?cs ! ?l = Some lc" "indexMaps r t lc = Some ?l"
    by blast
  have "capacities r t \<noteq> 0"
    using slots_okD(2)[OF s] n0 by simp
  with slots_okD(7)[OF s] obtain m where m: "meshes r t = Some m"
    by (cases "meshes r t") auto
  have mlen: "?n \<le> length (instanceMatrix m)"
    using slots_okD(6)[OF s m] slots_okD(2)[OF s] by simp
  have get: "jsGet ?cs ?l = Some lc"
    using l len lc by (simp add: jsGet_def)
  show ?thesis
  proof (cases "i = ?l")
    case True
    let ?r2 = "r\<lparr>counts := (counts r)(t := ?l)\<rparr>"
    let ?r3 = "?r2\<lparr>meshes := (meshes ?r2)(t := Some (m\<lparr>drawCount := counts ?r2 t\<rparr>))\<rparr>"
    let ?r' = "?r3\<lparr>indexMaps := (indexMaps ?r3)(t := (indexMaps ?r3 t)(ck := None)),
                   cellsByIndex := (cellsByIndex ?r3)(t := jsSetLength (cellsByIndex ?r3 t) (counts ?r3 t)),
                   occupancy := (occupancy ?r3)(ck := None)\<rparr>"
    have sr: "swapRemove r t ck = Inr ?r'"
      unfolding swapRemove_def Let_def using idx n0 True m by (simp add: setDrawCount_def)
    from True i lc have lcck: "lc = ck" by simp
    have "batch_ok ?r' t"
    proof (rule swap_fields_ok[OF ok idx lc(1) m])
      show "cellsByIndex ?r' t = take ?l (?cs[i := Some lc])"
        using len True lc by (simp add: jsSetLength_def list_update_same_conv[THEN iffD2])
      show "indexMaps ?r' t = ((indexMaps r t)(lc \<mapsto> i))(ck := None)"
        using lcck by simp
      show "meshes ?r' t = Some (m\<lparr>drawCount := ?l\<rparr>)" by simp
      show "instanceMatrix (m\<lparr>drawCount := ?l\<rparr>) = (instanceMatrix m)[i := instanceMatrix m ! ?l]"
        using True by simp
    qed simp_all
    with idx sr n0 show ?thesis
      by (intro exI[of _ ?r'] exI[of _ i]) simp
  next
    case False
    let ?r1 = "r\<lparr>meshes := (meshes r)(t := Some (setMatrixAt m i (getMatrixAt m ?l))),
                  cellsByIndex := (cellsByIndex r)(t := jsSet ?cs i lc),
                  indexMaps := (indexMaps r)(t := (indexMaps r t)(lc \<mapsto> i))\<rparr>"
    let ?r2 = "?r1\<lparr>counts := (counts ?r1)(t := ?l)\<rparr>"
    let ?m2 = "(setMatrixAt m i (getMatrixAt m ?l))\<lparr>drawCount := ?l\<rparr>"
    let ?r3 = "?r2\<lparr>meshes := (meshes ?r2)(t := Some ?m2)\<rparr>"
    let ?r' = "?r3\<lparr>indexMaps := (indexMaps ?r3)(t := (indexMaps ?r3 t)(ck := None)),
                   cellsByIndex := (cellsByIndex ?r3)(t := jsSetLength (cellsByIndex ?r3 t) (counts ?r3 t)),
                   occupancy := (occupancy ?r3)(ck := None)\<rparr>"
    have mv: "moveLastInto r t i ?l = Inr ?r1"
      using m get by (simp add: moveLastInto_def)
    have sr: "swapRemove r t ck = Inr ?r'"
      unfolding swapRemove_def Let_def using idx n0 False mv by (simp add: setDrawCount_def)
    have "batch_ok ?r' t"
    proof (rule swap_fields_ok[OF ok idx lc(1) m])
      show "cellsByIndex ?r' t = take ?l (?cs[i := Some lc])"
        using len i by (simp add: jsSetLength_def jsSet_def)
      show "indexMaps ?r' t = ((indexMaps r t)(lc \<mapsto> i))(ck := None)"
        by simp
      show "meshes ?r' t = Some ?m2" by simp
      show "instanceMatrix ?m2 = (instanceMatrix m)[i := instanceMatrix m ! ?l]"
        using l mlen by (simp add: setMatrixAt_def getMatrixAt_def)
    qed simp_all
    with idx sr n0 show ?thesis
      by (intro exI[of _ ?r'] exI[of _ i]) simp
  qed
qed

subsection \<open>edits keep the invariant of the world\<close>

lemma removeBlockAt_resident:
  assumes res: "map_of (chunks w) (getChunkKey x y z) = Some r"
    and occ: "occupancy r (getCellKey x y z) = Some t"
    and ok: "batch_ok r t"
  shows "\<exists>r' i. indexMaps r t (getCellKey x y z) = Some i \<and>
         removeBlockAt x y z w =
           Inr (Undefined,
                \<lparr>chunks = AList.update (getChunkKey x y z) r' (chunks w),
                 chunkData =
                   (case chunkData w (getChunkKey x y z) of
                      None \<Rightarrow> chunkData w
                    | Some arr \<Rightarrow>
                        (chunkData w)
                          (getChunkKey x y z \<mapsto>
                             filter (\<lambda>(c0, c1, c2, _). \<not> (c0 = x \<and> c1 = y \<and> c2 = z)) arr))\<rparr>) \<and>
         batch_ok r' t \<and> occupancy r' = (occupancy r)(getCellKey x y z := None) \<and>
         Suc (counts r' t) = counts r t \<and>
         (\<forall>t'. t' \<noteq> t \<longrightarrow> meshes r' t' = meshes r t' \<and> indexMaps r' t' = indexMaps r t' \<and>
            cellsByIndex r' t' = cellsByIndex r t' \<and> counts r' t' = counts r t' \<and>
            capacities r' t' = capacities r t')"
proof -
  from swapRemove_ok[OF ok occ] obtain r' i where
    a: "indexMaps r t (getCellKey x y z) = Some i" "swapRemove r t (getCellKey x y z) = Inr r'"
    and b: "batch_ok r' t" "occupancy r' = (occupancy r)(getCellKey x y z := None)"
      "Suc (counts r' t) = counts r t"
      "\<forall>t'. t' \<noteq> t \<longrightarrow> meshes r' t' = meshes r t' \<and> indexMaps r' t' = indexMaps r t' \<and>
            cellsByIndex r' t' = cellsByIndex r t' \<and> counts r' t' = counts r t' \<and>
            capacities r' t' = capacities r t'"
    by blast
  have "removeBlockAt x y z w =
           Inr (Undefined,
                \<lparr>chunks = AList.update (getChunkKey x y z) r' (chunks w),
                 chunkData =
                   (case chunkData w (getChunkKey x y z) of
                      None \<Rightarrow> chunkData w
                    | Some arr \<Rightarrow>
                        (chunkData w)
                          (getChunkKey x y z \<mapsto>
                             filter (\<lambda>(c0, c1, c2, _). \<not> (c0 = x \<and> c1 = y \<and> c2 = z)) arr))\<rparr>)"
    unfolding removeBlockAt_def Let_def using res occ a by simp
  with a b show ?thesis by blast
qed

lemma chunk_ok_data:
  "chunkData w' k = chunkData w k \<Longrightarrow> chunk_ok w' k r = chunk_ok w k r"
  by (simp add: chunk_ok_def)

lemma world_okD:
  assumes "world_ok w"
  shows "\<And>k r. map_of (chunks w) k = Some r \<Longrightarrow> chunk_ok w k r"
    "\<And>k arr. chunkData w k = Some arr \<Longrightarrow> data_ok arr"
  using assms unfolding world_ok_def by blast+

lemma batch_ok_other:
  assumes ok: "batch_ok r t'" and ne: "t' \<noteq> t"
    and fr: "meshes r' t' = meshes r t'" "indexMaps r' t' = indexMaps r t'"
      "cellsByIndex r' t' = cellsByIndex r t'" "counts r' t' = counts r t'"
      "capacities r' t' = capacities r t'"
    and occ: "\<And>c. (occupancy r' c = Some t') = (occupancy r c = Some t')"
  shows "batch_ok r' t'"
  using batch_ok_cong[of r' t' r] ok fr occ by simp

lemma occ_matches_cell:
  "occ_matches r arr \<Longrightarrow> e \<in> set arr \<Longrightarrow> occupancy r (entryCell e) \<noteq> None"
  unfolding occ_matches_def by (cases e) (auto simp: entryCell_def)

lemma addBlockAt_world_ok:
  assumes w: "world_ok w" and snap: "snapped x" "snapped y" "snapped z"
    and add: "addBlockAt x y z t w = Inr (v, w')"
  shows "world_ok w'"
proof (cases "map_of (chunks w) (getChunkKey x y z)")
  case None
  with add w show ?thesis by (simp add: addBlockAt_def)
next
  case (Some r)
  let ?k = "getChunkKey x y z"
  let ?ck = "getCellKey x y z"
  show ?thesis
  proof (cases "occupancy r ?ck")
    case (Some u)
    with add w \<open>map_of (chunks w) ?k = Some r\<close> show ?thesis by (simp add: addBlockAt_def Let_def)
  next
    case None
    note res = \<open>map_of (chunks w) ?k = Some r\<close>
    from world_okD(1)[OF w res] obtain arr where
      ky: "keyY ?k = 0" and bG: "batch_ok r Green" and bB: "batch_ok r Brown"
      and arr: "chunkData w ?k = Some arr" and om: "occ_matches r arr"
      by (auto simp: chunk_ok_def)
    have ball: "\<And>u. batch_ok r u"
      using bG bB by (case_tac u) auto
    from addBlockAt_resident[OF res None ball[of t] snap] add arr obtain r' where
      w': "w' = \<lparr>chunks = AList.update ?k r' (chunks w),
                 chunkData = (chunkData w)(?k \<mapsto> arr @ [(x, y, z, t)])\<rparr>"
      and r': "batch_ok r' t" "occupancy r' = (occupancy r)(?ck \<mapsto> t)"
        "\<forall>t'. t' \<noteq> t \<longrightarrow> meshes r' t' = meshes r t' \<and> indexMaps r' t' = indexMaps r t' \<and>
            cellsByIndex r' t' = cellsByIndex r t' \<and> counts r' t' = counts r t' \<and>
            capacities r' t' = capacities r t'"
      by auto
    have ball': "\<And>u. batch_ok r' u"
    proof -
      fix u show "batch_ok r' u"
      proof (cases "u = t")
        case True
        with r'(1) show ?thesis by simp
      next
        case False
        show ?thesis
        proof (rule batch_ok_other[OF ball[of u] False])
          fix c show "(occupancy r' c = Some u) = (occupancy r c = Some u)"
            using False None by (auto simp: r'(2))
        qed (use r'(3) False in simp_all)
      qed
    qed
    have notin: "?ck \<notin> entryCell ` set arr"
    proof
      assume "?ck \<in> entryCell ` set arr"
      then obtain e where e: "e \<in> set arr" "entryCell e = ?ck" by auto
      from occ_matches_cell[OF om e(1)] e(2) None show False by simp
    qed
    have om': "occ_matches r' (arr @ [(x, y, z, t)])"
      unfolding occ_matches_def
    proof (intro allI)
      fix c u
      show "(occupancy r' c = Some u) =
            (\<exists>a b d. (a, b, d, u) \<in> set (arr @ [(x, y, z, t)]) \<and> getCellKey a b d = c)"
      proof (cases "c = ?ck")
        case True
        have "\<And>a b d u'. (a, b, d, u') \<in> set arr \<Longrightarrow> getCellKey a b d \<noteq> ?ck"
          using notin by (force simp: entryCell_def)
        with True show ?thesis by (auto simp: r'(2))
      next
        case False
        then show ?thesis
          using om unfolding occ_matches_def by (auto simp: r'(2))
      qed
    qed
    have dok: "data_ok (arr @ [(x, y, z, t)])"
      using world_okD(2)[OF w arr] notin snap
      by (auto simp: data_ok_def entryCell_def entrySnapped_def)
    show ?thesis
      unfolding world_ok_def
    proof (intro conjI allI impI)
      fix k' r'' assume a: "map_of (chunks w') k' = Some r''"
      show "chunk_ok w' k' r''"
      proof (cases "k' = ?k")
        case True
        with a have "r'' = r'" by (simp add: w' update_conv')
        with True ky ball' om' show ?thesis by (simp add: chunk_ok_def w')
      next
        case False
        with a have "map_of (chunks w) k' = Some r''" by (simp add: w' update_conv')
        from world_okD(1)[OF w this] False show ?thesis
          by (simp add: chunk_ok_def w')
      qed
    next
      fix k' arr' assume "chunkData w' k' = Some arr'"
      then show "data_ok arr'"
        using dok world_okD(2)[OF w] by (cases "k' = ?k") (auto simp: w')
    qed
  qed
qed

lemma removeBlockAt_world_ok:
  assumes w: "world_ok w" and snap: "snapped x" "snapped y" "snapped z"
    and rm: "removeBlockAt x y z w = Inr (v, w')"
  shows "world_ok w'"
proof (cases "map_of (chunks w) (getChunkKey x y z)")
  case None
  with rm w show ?thesis by (simp add: removeBlockAt_def)
next
  case (Some r)
  let ?k = "getChunkKey x y z"
  let ?ck = "getCellKey x y z"
  let ?P = "\<lambda>(c0, c1, c2, _ :: btype). \<not> (c0 = x \<and> c1 = y \<and> c2 = z)"
  show ?thesis
  proof (cases "occupancy r ?ck")
    case None
    with rm w \<open>map_of (chunks w) ?k = Some r\<close> show ?thesis by (simp add: removeBlockAt_def Let_def)
  next
    case (Some t)
    note res = \<open>map_of (chunks w) ?k = Some r\<close>
    from world_okD(1)[OF w res] obtain arr where
      ky: "keyY ?k = 0" and bG: "batch_ok r Green" and bB: "batch_ok r Brown"
      and arr: "chunkData w ?k = Some arr" and om: "occ_matches r arr"
      by (auto simp: chunk_ok_def)
    have ball: "\<And>u. batch_ok r u"
      using bG bB by (case_tac u) auto
    from removeBlockAt_resident[OF res Some ball[of t]] rm arr obtain r' where
      w': "w' = \<lparr>chunks = AList.update ?k r' (chunks w),
                 chunkData = (chunkData w)(?k \<mapsto> filter ?P arr)\<rparr>"
      and r': "batch_ok r' t" "occupancy r' = (occupancy r)(?ck := None)"
        "\<forall>t'. t' \<noteq> t \<longrightarrow> meshes r' t' = meshes r t' \<and> indexMaps r' t' = indexMaps r t' \<and>
            cellsByIndex r' t' = cellsByIndex r t' \<and> counts r' t' = counts r t' \<and>
            capacities r' t' = capacities r t'"
      by auto
    have ball': "\<And>u. batch_ok r' u"
    proof -
      fix u show "batch_ok r' u"
      proof (cases "u = t")
        case True
        with r'(1) show ?thesis by simp
      next
        case False
        show ?thesis
        proof (rule batch_ok_other[OF ball[of u] False])
          fix c show "(occupancy r' c = Some u) = (occupancy r c = Some u)"
            using False Some by (auto simp: r'(2))
        qed (use r'(3) False in simp_all)
      qed
    qed
    have dok: "data_ok arr" by (rule world_okD(2)[OF w arr])
    have same: "\<And>a b d u. (a, b, d, u) \<in> set arr \<Longrightarrow>
                  (getCellKey a b d = ?ck) = (a = x \<and> b = y \<and> d = z)"
    proof -
      fix a b d u assume "(a, b, d, u) \<in> set arr"
      with dok have "snapped a" "snapped b" "snapped d"
        by (auto simp: data_ok_def entrySnapped_def)
      with snap show "(getCellKey a b d = ?ck) = (a = x \<and> b = y \<and> d = z)"
        by (simp add: snapped_same_cell)
    qed
    have om': "occ_matches r' (filter ?P arr)"
      unfolding occ_matches_def
    proof (intro allI)
      fix c u
      show "(occupancy r' c = Some u) =
            (\<exists>a b d. (a, b, d, u) \<in> set (filter ?P arr) \<and> getCellKey a b d = c)"
      proof (cases "c = ?ck")
        case True
        then show ?thesis using same by (auto simp: r'(2))
      next
        case False
        have "(occupancy r c = Some u) = (\<exists>a b d. (a, b, d, u) \<in> set arr \<and> getCellKey a b d = c)"
          using om unfolding occ_matches_def by blast
        with False show ?thesis using same by (auto simp: r'(2))
      qed
    qed
    have dok': "data_ok (filter ?P arr)"
      using dok by (auto simp: data_ok_def distinct_map_filter)
    show ?thesis
      unfolding world_ok_def
    proof (intro conjI allI impI)
      fix k' r'' assume a: "map_of (chunks w') k' = Some r''"
      show "chunk_ok w' k' r''"
      proof (cases "k' = ?k")
        case True
        with a have "r'' = r'" by (simp add: w' update_conv')
        with True ky ball' om' show ?thesis by (simp add: chunk_ok_def w')
      next
        case False
        with a have "map_of (chunks w) k' = Some r''" by (simp add: w' update_conv')
        from world_okD(1)[OF w this] False show ?thesis
          by (simp add: chunk_ok_def w')
      qed
    next
      fix k' arr' assume "chunkData w' k' = Some arr'"
      then show "data_ok arr'"
        using dok' world_okD(2)[OF w] by (cases "k' = ?k") (auto simp: w')
    qed
  qed
qed

subsection \<open>loading and unloading\<close>

lemma buildChunkFromArray_total:
  "\<exists>r. buildRecord arr = Inr r \<and>
       buildChunkFromArray k arr w = Inr (w\<lparr>chunks := AList.update k r (chunks w)\<rparr>)"
  using buildRecord_total[of arr] by (auto simp: buildChunkFromArray_def)

lemma loadOrGenerateChunk_resident:
  "map_of (chunks w) (Key cx 0 cz) \<noteq> None \<Longrightarrow> loadOrGenerateChunk cx cz w = Inr w"
  by (simp add: loadOrGenerateChunk_def getChunkKeyFromCoords_def)

lemma loadOrGenerateChunk_absent:
  assumes "map_of (chunks w) (Key cx 0 cz) = None"
  shows "\<exists>r. buildRecord (chunkSource w (Key cx 0 cz)) = Inr r \<and>
           loadOrGenerateChunk cx cz w =
             Inr \<lparr>chunks = AList.update (Key cx 0 cz) r (chunks w),
                  chunkData = (chunkData w)(Key cx 0 cz \<mapsto> chunkSource w (Key cx 0 cz))\<rparr>"
proof (cases "chunkData w (Key cx 0 cz)")
  case None
  let ?arr = "generateGroundArrayForChunk cx cz"
  from buildChunkFromArray_total[of ?arr "Key cx 0 cz" "w\<lparr>chunkData := (chunkData w)(Key cx 0 cz \<mapsto> ?arr)\<rparr>"]
  obtain r where "buildRecord ?arr = Inr r"
    "buildChunkFromArray (Key cx 0 cz) ?arr (w\<lparr>chunkData := (chunkData w)(Key cx 0 cz \<mapsto> ?arr)\<rparr>) =
       Inr \<lparr>chunks = AList.update (Key cx 0 cz) r (chunks w),
            chunkData = (chunkData w)(Key cx 0 cz \<mapsto> ?arr)\<rparr>"
    by auto
  with None assms show ?thesis
    by (simp add: loadOrGenerateChunk_def getChunkKeyFromCoords_def chunkSource_def Let_def)
next
  case (Some arr)
  from buildChunkFromArray_total[of arr "Key cx 0 cz" w]
  obtain r where "buildRecord arr = Inr r"
    "buildChunkFromArray (Key cx 0 cz) arr w = Inr (w\<lparr>chunks := AList.update (Key cx 0 cz) r (chunks w)\<rparr>)"
    by auto
  moreover have "(chunkData w)(Key cx 0 cz \<mapsto> arr) = chunkData w"
    using Some by (rule map_upd_triv)
  ultimately show ?thesis
    using Some assms
    by (simp add: loadOrGenerateChunk_def getChunkKeyFromCoords_def chunkSource_def)
qed

lemma unloadChunk_chunks:
  "map_of (chunks (unloadChunk k w)) = (map_of (chunks w))(k := None)"
  by (cases "map_of (chunks w) k") (auto simp: unloadChunk_def delete_conv')

lemma unloadChunk_data [simp]: "chunkData (unloadChunk k w) = chunkData w"
  by (simp add: unloadChunk_def split: option.splits)

lemma unloadLoop_data [simp]: "chunkData (unloadLoop active ks w) = chunkData w"
  by (induction ks arbitrary: w) simp_all

lemma unloadLoop_chunks:
  "map_of (chunks (unloadLoop active ks w)) k =
     (if k \<in> set ks \<and> k \<notin> set active then None else map_of (chunks w) k)"
  by (induction ks arbitrary: w) (auto simp: unloadChunk_chunks)

lemma set_pairs_upto:
  "set [(x, y). x \<leftarrow> [a..b], y \<leftarrow> [c..d]] = {a..b} \<times> {c..d}"
  by auto

lemma set_offsets:
  "set offsets = {- RENDER_DISTANCE .. RENDER_DISTANCE} \<times> {- RENDER_DISTANCE .. RENDER_DISTANCE}"
  unfolding offsets_def by (rule set_pairs_upto)

lemma offsets_keys:
  "(\<lambda>(dx, dz). Key (px + dx) 0 (pz + dz)) ` set offsets = neighbourhood px pz"
proof (rule set_eqI)
  fix k
  show "k \<in> (\<lambda>(dx, dz). Key (px + dx) 0 (pz + dz)) ` set offsets \<longleftrightarrow> k \<in> neighbourhood px pz"
  proof
    assume "k \<in> (\<lambda>(dx, dz). Key (px + dx) 0 (pz + dz)) ` set offsets"
    then show "k \<in> neighbourhood px pz"
      unfolding set_offsets by (auto simp: neighbourhood_def)
  next
    assume a: "k \<in> neighbourhood px pz"
    then have "(keyX k - px, keyZ k - pz) \<in> set offsets"
      unfolding set_offsets by (auto simp: neighbourhood_def)
    moreover have "k = Key (px + (keyX k - px)) 0 (pz + (keyZ k - pz))"
      using a by (cases k) (simp add: neighbourhood_def)
    ultimately show "k \<in> (\<lambda>(dx, dz). Key (px + dx) 0 (pz + dz)) ` set offsets"
      by (metis (mono_tags, lifting) case_prod_conv image_eqI)
  qed
qed

lemma chunkSource_cong: "chunkData w' k = chunkData w k \<Longrightarrow> chunkSource w' k = chunkSource w k"
  by (simp add: chunkSource_def)

lemma loadLoop_effect:
  "\<exists>active' w'. loadLoop px pz offs (active, w) = Inr (active', w') \<and>
     set active' = set active \<union> (\<lambda>(dx, dz). Key (px + dx) 0 (pz + dz)) ` set offs \<and>
     dom (map_of (chunks w')) =
       dom (map_of (chunks w)) \<union> (\<lambda>(dx, dz). Key (px + dx) 0 (pz + dz)) ` set offs \<and>
     (\<forall>k. map_of (chunks w) k \<noteq> None \<longrightarrow>
          map_of (chunks w') k = map_of (chunks w) k \<and> chunkData w' k = chunkData w k) \<and>
     (\<forall>k. k \<in> (\<lambda>(dx, dz). Key (px + dx) 0 (pz + dz)) ` set offs \<longrightarrow> map_of (chunks w) k = None \<longrightarrow>
          (\<exists>r. buildRecord (chunkSource w k) = Inr r \<and> map_of (chunks w') k = Some r) \<and>
          chunkData w' k = Some (chunkSource w k)) \<and>
     (\<forall>k. k \<notin> (\<lambda>(dx, dz). Key (px + dx) 0 (pz + dz)) ` set offs \<longrightarrow> chunkData w' k = chunkData w k)"
proof (induction offs arbitrary: active w)
  case Nil
  then show ?case by simp
next
  case (Cons off offs)
  obtain dx dz where o: "off = (dx, dz)" by (cases off) auto
  let ?K = "(\<lambda>(dx, dz). Key (px + dx) 0 (pz + dz)) ` set offs"
  let ?k0 = "Key (px + dx) 0 (pz + dz)"
  let ?a1 = "List.insert ?k0 active"
  have K: "(\<lambda>(dx, dz). Key (px + dx) 0 (pz + dz)) ` set (off # offs) = insert ?k0 ?K"
    by (simp add: o)
  show ?case
  proof (cases "map_of (chunks w) ?k0")
    case (Some r0)
    from Cons.IH[of ?a1 w] obtain active' w' where
      ih: "loadLoop px pz offs (?a1, w) = Inr (active', w')"
        "set active' = set ?a1 \<union> ?K"
        "dom (map_of (chunks w')) = dom (map_of (chunks w)) \<union> ?K"
        "\<forall>k. map_of (chunks w) k \<noteq> None \<longrightarrow>
          map_of (chunks w') k = map_of (chunks w) k \<and> chunkData w' k = chunkData w k"
        "\<forall>k. k \<in> ?K \<longrightarrow> map_of (chunks w) k = None \<longrightarrow>
          (\<exists>r. buildRecord (chunkSource w k) = Inr r \<and> map_of (chunks w') k = Some r) \<and>
          chunkData w' k = Some (chunkSource w k)"
        "\<forall>k. k \<notin> ?K \<longrightarrow> chunkData w' k = chunkData w k"
      by (elim exE conjE) (rule that; assumption)
    have run: "loadLoop px pz (off # offs) (active, w) = Inr (active', w')"
      using Some ih(1) by (simp add: o getChunkKeyFromCoords_def Let_def)
    have act: "set active' = set active \<union> insert ?k0 ?K"
      using ih(2) by auto
    have k0: "?k0 \<in> dom (map_of (chunks w))"
      using Some by auto
    have d: "dom (map_of (chunks w')) = dom (map_of (chunks w)) \<union> insert ?k0 ?K"
      unfolding ih(3) using k0 by blast
    have new: "\<forall>k. k \<in> insert ?k0 ?K \<longrightarrow> map_of (chunks w) k = None \<longrightarrow>
          (\<exists>r. buildRecord (chunkSource w k) = Inr r \<and> map_of (chunks w') k = Some r) \<and>
          chunkData w' k = Some (chunkSource w k)"
    proof (intro allI impI)
      fix k assume k: "k \<in> insert ?k0 ?K" "map_of (chunks w) k = None"
      with Some have "k \<noteq> ?k0" by auto
      with k have "k \<in> ?K" by simp
      with ih(5) k(2) show "(\<exists>r. buildRecord (chunkSource w k) = Inr r \<and> map_of (chunks w') k = Some r) \<and>
          chunkData w' k = Some (chunkSource w k)"
        by blast
    qed
    have other: "\<forall>k. k \<notin> insert ?k0 ?K \<longrightarrow> chunkData w' k = chunkData w k"
      using ih(6) by simp
    show ?thesis
      unfolding K
      apply (rule exI[of _ active'])
      apply (rule exI[of _ w'])
      apply (intro conjI)
           apply (rule run)
          apply (rule act)
         apply (rule d)
        apply (rule ih(4))
       apply (rule new)
      apply (rule other)
      done
  next
    case None
    from loadOrGenerateChunk_absent[OF None] obtain r0 where
      r0: "buildRecord (chunkSource w ?k0) = Inr r0"
      and ld: "loadOrGenerateChunk (px + dx) (pz + dz) w =
             Inr \<lparr>chunks = AList.update ?k0 r0 (chunks w),
                  chunkData = (chunkData w)(?k0 \<mapsto> chunkSource w ?k0)\<rparr>"
      by blast
    let ?w1 = "\<lparr>chunks = AList.update ?k0 r0 (chunks w),
                  chunkData = (chunkData w)(?k0 \<mapsto> chunkSource w ?k0)\<rparr>"
    have m1: "map_of (chunks ?w1) = (map_of (chunks w))(?k0 \<mapsto> r0)"
      by (simp add: update_conv')
    from Cons.IH[of ?a1 ?w1] obtain active' w' where
      ih: "loadLoop px pz offs (?a1, ?w1) = Inr (active', w')"
        "set active' = set ?a1 \<union> ?K"
        "dom (map_of (chunks w')) = dom (map_of (chunks ?w1)) \<union> ?K"
        "\<forall>k. map_of (chunks ?w1) k \<noteq> None \<longrightarrow>
          map_of (chunks w') k = map_of (chunks ?w1) k \<and> chunkData w' k = chunkData ?w1 k"
        "\<forall>k. k \<in> ?K \<longrightarrow> map_of (chunks ?w1) k = None \<longrightarrow>
          (\<exists>r. buildRecord (chunkSource ?w1 k) = Inr r \<and> map_of (chunks w') k = Some r) \<and>
          chunkData w' k = Some (chunkSource ?w1 k)"
        "\<forall>k. k \<notin> ?K \<longrightarrow> chunkData w' k = chunkData ?w1 k"
      by (elim exE conjE) (rule that; assumption)
    have run: "loadLoop px pz (off # offs) (active, w) = Inr (active', w')"
      using None ld ih(1) by (simp add: o getChunkKeyFromCoords_def Let_def)
    have act: "set active' = set active \<union> insert ?k0 ?K"
      using ih(2) by auto
    have d: "dom (map_of (chunks w')) = dom (map_of (chunks w)) \<union> insert ?k0 ?K"
      unfolding ih(3) m1 by auto
    have keep: "\<forall>k. map_of (chunks w) k \<noteq> None \<longrightarrow>
          map_of (chunks w') k = map_of (chunks w) k \<and> chunkData w' k = chunkData w k"
    proof (intro allI impI)
      fix k assume k: "map_of (chunks w) k \<noteq> None"
      with None have ne: "k \<noteq> ?k0" by auto
      with k have "map_of (chunks ?w1) k \<noteq> None" unfolding m1 by simp
      with ih(4) have "map_of (chunks w') k = map_of (chunks ?w1) k \<and> chunkData w' k = chunkData ?w1 k"
        by blast
      with ne show "map_of (chunks w') k = map_of (chunks w) k \<and> chunkData w' k = chunkData w k"
        unfolding m1 by simp
    qed
    have new: "\<forall>k. k \<in> insert ?k0 ?K \<longrightarrow> map_of (chunks w) k = None \<longrightarrow>
          (\<exists>r. buildRecord (chunkSource w k) = Inr r \<and> map_of (chunks w') k = Some r) \<and>
          chunkData w' k = Some (chunkSource w k)"
    proof (intro allI impI)
      fix k assume k: "k \<in> insert ?k0 ?K" "map_of (chunks w) k = None"
      show "(\<exists>r. buildRecord (chunkSource w k) = Inr r \<and> map_of (chunks w') k = Some r) \<and>
          chunkData w' k = Some (chunkSource w k)"
      proof (cases "k = ?k0")
        case True
        have "map_of (chunks ?w1) ?k0 \<noteq> None" unfolding m1 by simp
        with ih(4) have "map_of (chunks w') ?k0 = map_of (chunks ?w1) ?k0 \<and>
            chunkData w' ?k0 = chunkData ?w1 ?k0"
          by blast
        with r0 True show ?thesis unfolding m1 by simp
      next
        case False
        with k have kK: "k \<in> ?K" by simp
        from False k(2) have "map_of (chunks ?w1) k = None" unfolding m1 by simp
        with ih(5) kK have "(\<exists>r. buildRecord (chunkSource ?w1 k) = Inr r \<and> map_of (chunks w') k = Some r) \<and>
          chunkData w' k = Some (chunkSource ?w1 k)"
          by blast
        moreover have "chunkSource ?w1 k = chunkSource w k"
          using False by (intro chunkSource_cong) simp
        ultimately show ?thesis by simp
      qed
    qed
    have other: "\<forall>k. k \<notin> insert ?k0 ?K \<longrightarrow> chunkData w' k = chunkData w k"
    proof (intro allI impI)
      fix k assume "k \<notin> insert ?k0 ?K"
      then have "k \<noteq> ?k0" "k \<notin> ?K" by simp_all
      with ih(6) show "chunkData w' k = chunkData w k" by simp
    qed
    show ?thesis
      unfolding K
      apply (rule exI[of _ active'])
      apply (rule exI[of _ w'])
      apply (intro conjI)
           apply (rule run)
          apply (rule act)
         apply (rule d)
        apply (rule keep)
       apply (rule new)
      apply (rule other)
      done
  qed
qed

subsection \<open>one call of updateChunks\<close>

lemma chunkSource_data_ok: "world_ok w \<Longrightarrow> data_ok (chunkSource w k)"
  by (cases "chunkData w k") (auto simp: chunkSource_def generate_data_ok dest: world_okD(2))

lemma updateChunks_effect:
  fixes camx camz :: real
  defines "px \<equiv> \<lfloor>camx / real_of_int CHUNK_SIZE\<rfloor>"
  defines "pz \<equiv> \<lfloor>camz / real_of_int CHUNK_SIZE\<rfloor>"
  shows "\<exists>w'. updateChunks camx camz w = Inr w' \<and>
     dom (map_of (chunks w')) = neighbourhood px pz \<and>
     (\<forall>k. k \<in> neighbourhood px pz \<longrightarrow> map_of (chunks w) k \<noteq> None \<longrightarrow>
          map_of (chunks w') k = map_of (chunks w) k \<and> chunkData w' k = chunkData w k) \<and>
     (\<forall>k. k \<in> neighbourhood px pz \<longrightarrow> map_of (chunks w) k = None \<longrightarrow>
          (\<exists>r. buildRecord (chunkSource w k) = Inr r \<and> map_of (chunks w') k = Some r) \<and>
          chunkData w' k = Some (chunkSource w k)) \<and>
     (\<forall>k. k \<notin> neighbourhood px pz \<longrightarrow> chunkData w' k = chunkData w k)"
proof -
  let ?K = "neighbourhood px pz"
  from loadLoop_effect[of px pz offsets "[]" w] obtain active' w1 where
    ld: "loadLoop px pz offsets ([], w) = Inr (active', w1)"
    and act: "set active' = ?K"
    and d1: "dom (map_of (chunks w1)) = dom (map_of (chunks w)) \<union> ?K"
    and keep: "\<forall>k. map_of (chunks w) k \<noteq> None \<longrightarrow>
          map_of (chunks w1) k = map_of (chunks w) k \<and> chunkData w1 k = chunkData w k"
    and new: "\<forall>k. k \<in> ?K \<longrightarrow> map_of (chunks w) k = None \<longrightarrow>
          (\<exists>r. buildRecord (chunkSource w k) = Inr r \<and> map_of (chunks w1) k = Some r) \<and>
          chunkData w1 k = Some (chunkSource w k)"
    and other: "\<forall>k. k \<notin> ?K \<longrightarrow> chunkData w1 k = chunkData w k"
    unfolding offsets_keys by (elim exE conjE) (rule that; simp)
  let ?w' = "unloadLoop active' (map fst (chunks w1)) w1"
  have run: "updateChunks camx camz w = Inr ?w'"
    using ld by (simp add: updateChunks_def px_def pz_def)
  have m: "\<And>k. map_of (chunks ?w') k = (if k \<in> ?K then map_of (chunks w1) k else None)"
  proof -
    fix k
    have "k \<notin> set (map fst (chunks w1)) \<Longrightarrow> map_of (chunks w1) k = None"
      by (simp add: map_of_eq_None_iff)
    then show "map_of (chunks ?w') k = (if k \<in> ?K then map_of (chunks w1) k else None)"
      unfolding unloadLoop_chunks act by auto
  qed
  have d: "dom (map_of (chunks ?w')) = ?K"
  proof (rule set_eqI)
    fix k
    show "k \<in> dom (map_of (chunks ?w')) \<longleftrightarrow> k \<in> ?K"
      using d1 by (auto simp: m domIff)
  qed
  show ?thesis
    apply (rule exI[of _ ?w'])
    apply (intro conjI)
        apply (rule run)
       apply (rule d)
    using keep apply (simp add: m)
    using new apply (simp add: m)
    using other apply simp
    done
qed

lemma updateChunks_world_ok:
  assumes w: "world_ok w" and up: "updateChunks camx camz w = Inr w'"
  shows "world_ok w'"
proof -
  let ?K = "neighbourhood \<lfloor>camx / real_of_int CHUNK_SIZE\<rfloor> \<lfloor>camz / real_of_int CHUNK_SIZE\<rfloor>"
  from updateChunks_effect[of camx camz w] up have
    d: "dom (map_of (chunks w')) = ?K"
    and keep: "\<And>k. k \<in> ?K \<Longrightarrow> map_of (chunks w) k \<noteq> None \<Longrightarrow>
          map_of (chunks w') k = map_of (chunks w) k \<and> chunkData w' k = chunkData w k"
    and new: "\<And>k. k \<in> ?K \<Longrightarrow> map_of (chunks w) k = None \<Longrightarrow>
          (\<exists>r. buildRecord (chunkSource w k) = Inr r \<and> map_of (chunks w') k = Some r) \<and>
          chunkData w' k = Some (chunkSource w k)"
    and other: "\<And>k. k \<notin> ?K \<Longrightarrow> chunkData w' k = chunkData w k"
    by auto
  show ?thesis
    unfolding world_ok_def
  proof (intro conjI allI impI)
    fix k r assume a: "map_of (chunks w') k = Some r"
    then have kK: "k \<in> ?K" using d by auto
    show "chunk_ok w' k r"
    proof (cases "map_of (chunks w) k")
      case None
      from new[OF kK None] a have b: "buildRecord (chunkSource w k) = Inr r"
        and c: "chunkData w' k = Some (chunkSource w k)"
        by auto
      from buildRecord_ok[OF chunkSource_data_ok[OF w, of k]] b
      have "batch_ok r Green" "batch_ok r Brown" "occ_matches r (chunkSource w k)"
        by auto
      moreover have "keyY k = 0" using kK by (simp add: neighbourhood_def)
      ultimately show ?thesis using c by (simp add: chunk_ok_def)
    next
      case (Some r0)
      with keep[OF kK, of] a have "r = r0" "chunkData w' k = chunkData w k" by auto
      with world_okD(1)[OF w Some] show ?thesis by (simp add: chunk_ok_def)
    qed
  next
    fix k arr assume a: "chunkData w' k = Some arr"
    show "data_ok arr"
    proof (cases "k \<in> ?K")
      case False
      with other a w show ?thesis by (auto dest: world_okD(2))
    next
      case True
      show ?thesis
      proof (cases "map_of (chunks w) k")
        case None
        from new[OF True None] a have "arr = chunkSource w k" by simp
        then show ?thesis by (simp add: chunkSource_data_ok[OF w])
      next
        case (Some r0)
        with keep[OF True, of] a have "chunkData w k = Some arr" by auto
        then show ?thesis by (rule world_okD(2)[OF w])
      qed
    qed
  qed
qed

lemma initial_world_ok: "world_ok initialWorld"
  by (simp add: world_ok_def initialWorld_def)

lemma reachable_world_ok: "reachable w \<Longrightarrow> world_ok w"
proof (induction rule: reachable.induct)
  case start
  show ?case by (rule initial_world_ok)
next
  case (tick w camx camz w')
  then show ?case by (auto intro: updateChunks_world_ok)
next
  case (place w x y z type v w')
  from place.IH snapped_snapToGrid snapped_snapToGrid snapped_snapToGrid place.hyps(2)
  show ?case by (rule addBlockAt_world_ok)
next
  case (destroy w x y z v w')
  from destroy.IH snapped_snapToGrid snapped_snapToGrid snapped_snapToGrid destroy.hyps(2)
  show ?case by (rule removeBlockAt_world_ok)
qed

subsection \<open>the example states\<close>

lemma snapToGrid_half [simp]: "snapToGrid (real_of_int n + 1/2) = real_of_int n + 1/2"
  using snapped_half[of n] by (simp add: snapped_def)

lemma snapped_numeral_halves [simp]: "snapped (1/2)" "snapped (7/2)"
  using snapped_half[of 0] snapped_half[of 3] by simp_all

lemma firstWorld_run: "updateChunks 0 0 initialWorld = Inr firstWorld"
  using updateChunks_effect[of 0 0 initialWorld] by (auto simp: firstWorld_def)

lemma firstWorld_reachable: "reachable firstWorld"
  using reachable.tick[OF reachable.start firstWorld_run] .

lemma origin_neighbourhood: "Key 0 0 0 \<in> neighbourhood 0 0"
  by (simp add: neighbourhood_def RENDER_DISTANCE_def)

lemma firstWorld_origin:
  "\<exists>r. map_of (chunks firstWorld) (Key 0 0 0) = Some r \<and>
       buildRecord (generateGroundArrayForChunk 0 0) = Inr r \<and>
       chunkData firstWorld (Key 0 0 0) = Some (generateGroundArrayForChunk 0 0)"
proof -
  have "map_of (chunks initialWorld) (Key 0 0 0) = None"
    by (simp add: initialWorld_def)
  moreover have "chunkSource initialWorld (Key 0 0 0) = generateGroundArrayForChunk 0 0"
    by (simp add: chunkSource_def initialWorld_def)
  ultimately show ?thesis
    using updateChunks_effect[of 0 0 initialWorld] origin_neighbourhood
    by (auto simp: firstWorld_run)
qed

lemma generate_occupied:
  assumes "0 \<le> x" "x \<le> 15" "0 \<le> z" "z \<le> 15" "0 \<le> y" "y \<le> 2"
  shows "(real_of_int (cx * CHUNK_SIZE + x) + 1/2, real_of_int y + 1/2,
          real_of_int (cz * CHUNK_SIZE + z) + 1/2, Green) \<in> set (generateGroundArrayForChunk cx cz)"
  unfolding generate_set using assms by (auto simp: image_iff)

lemma generate_cell:
  assumes "(a, b, c, u) \<in> set (generateGroundArrayForChunk cx cz)"
  shows "u = Green \<and> 0 \<le> keyY (getCellKey a b c) \<and> keyY (getCellKey a b c) \<le> 2"
proof -
  from assms obtain x z y where "0 \<le> y" "y \<le> 2"
    "(a, b, c, u) = (real_of_int (cx * CHUNK_SIZE + x) + 1/2, real_of_int y + 1/2,
          real_of_int (cz * CHUNK_SIZE + z) + 1/2, Green)"
    by (rule generate_entry)
  then show ?thesis
    by (simp add: getCellKey_def floor_half)
qed

lemma firstRecord:
  "\<exists>r. map_of (chunks firstWorld) (Key 0 0 0) = Some r \<and>
       occupancy r (Key 0 0 0) = Some Green \<and> occupancy r (Key 0 3 0) = None \<and>
       counts r Brown = 0 \<and> indexMaps r Brown = Map.empty \<and> batch_ok r Green \<and> batch_ok r Brown"
proof -
  let ?arr = "generateGroundArrayForChunk 0 0"
  from firstWorld_origin obtain r where
    r: "map_of (chunks firstWorld) (Key 0 0 0) = Some r" "buildRecord ?arr = Inr r"
    by blast
  from buildRecord_ok[OF generate_data_ok[of 0 0]] r(2) have
    ok: "batch_ok r Green" "batch_ok r Brown" and om: "occ_matches r ?arr"
    and cb: "counts r Brown = length (itemsOf Brown ?arr)"
    by auto
  have "(real_of_int (0 * CHUNK_SIZE + 0) + 1/2, real_of_int 0 + 1/2,
          real_of_int (0 * CHUNK_SIZE + 0) + 1/2, Green) \<in> set ?arr"
    by (rule generate_occupied) simp_all
  then have "(1/2, 1/2, 1/2, Green) \<in> set ?arr" by simp
  moreover have "getCellKey (1/2) (1/2) (1/2) = Key 0 0 0"
    by (simp add: getCellKey_def)
  ultimately have o1: "occupancy r (Key 0 0 0) = Some Green"
    using om unfolding occ_matches_def by blast
  have o2: "occupancy r (Key 0 3 0) = None"
  proof (cases "occupancy r (Key 0 3 0)")
    case (Some u)
    with om obtain a b c where "(a, b, c, u) \<in> set ?arr" "getCellKey a b c = Key 0 3 0"
      unfolding occ_matches_def by blast
    with generate_cell[of a b c u 0 0] show ?thesis by simp
  qed simp
  have nb: "\<And>c. occupancy r c \<noteq> Some Brown"
  proof
    fix c assume "occupancy r c = Some Brown"
    with om obtain a b d where "(a, b, d, Brown) \<in> set ?arr"
      unfolding occ_matches_def by blast
    with generate_cell[of a b d Brown 0 0] show False by simp
  qed
  have ib: "indexMaps r Brown = Map.empty"
  proof (rule ext)
    fix c show "indexMaps r Brown c = None"
      using batch_okD(2)[OF ok(2), of c] nb[of c] by auto
  qed
  have "counts r Brown = 0"
  proof (rule ccontr)
    assume "counts r Brown \<noteq> 0"
    then have "0 < counts r Brown" by simp
    from slots_okD(3)[OF batch_okD(1)[OF ok(2)] this] ib show False by simp
  qed
  with r(1) o1 o2 ib ok show ?thesis by blast
qed


lemma example_keys [simp]:
  "getChunkKey (1/2) (7/2) (1/2) = Key 0 0 0" "getCellKey (1/2) (7/2) (1/2) = Key 0 3 0"
  "getChunkKey (1/2) (1/2) (1/2) = Key 0 0 0" "getCellKey (1/2) (1/2) (1/2) = Key 0 0 0"
  by (simp_all add: getChunkKey_def getCellKey_def CHUNK_SIZE_def)

lemma snapToGrid_numeral_halves [simp]: "snapToGrid (1/2) = 1/2" "snapToGrid (7/2) = 7/2"
  using snapped_numeral_halves by (simp_all add: snapped_def)

lemma resident_batch_ok:
  "reachable w \<Longrightarrow> map_of (chunks w) k = Some r \<Longrightarrow> batch_ok r t"
  using world_okD(1)[OF reachable_world_ok, of w k r]
  by (cases t) (auto simp: chunk_ok_def)

lemma addBlockAt_simple:
  assumes "map_of (chunks w) (getChunkKey x y z) = Some r"
    and "occupancy r (getCellKey x y z) = None"
    and "batch_ok r t"
    and "snapped x" "snapped y" "snapped z"
  shows "\<exists>w' r'. addBlockAt x y z t w = Inr (Undefined, w') \<and>
         map_of (chunks w') (getChunkKey x y z) = Some r' \<and>
         occupancy r' = (occupancy r)(getCellKey x y z \<mapsto> t) \<and>
         indexMaps r' t = (indexMaps r t)(getCellKey x y z \<mapsto> counts r t) \<and>
         counts r' t = Suc (counts r t)"
proof -
  from addBlockAt_resident[OF assms] obtain r' where
    "addBlockAt x y z t w =
           Inr (Undefined,
                \<lparr>chunks = AList.update (getChunkKey x y z) r' (chunks w),
                 chunkData = (chunkData w)
                   (getChunkKey x y z \<mapsto>
                      (case chunkData w (getChunkKey x y z) of None \<Rightarrow> [] | Some a \<Rightarrow> a) @ [(x, y, z, t)])\<rparr>)"
    "occupancy r' = (occupancy r)(getCellKey x y z \<mapsto> t)"
    "indexMaps r' t = (indexMaps r t)(getCellKey x y z \<mapsto> counts r t)"
    "counts r' t = Suc (counts r t)"
    by (elim exE conjE) (rule that)
  then show ?thesis
    by (intro exI[of _ "\<lparr>chunks = AList.update (getChunkKey x y z) r' (chunks w),
                 chunkData = (chunkData w)
                   (getChunkKey x y z \<mapsto>
                      (case chunkData w (getChunkKey x y z) of None \<Rightarrow> [] | Some a \<Rightarrow> a) @ [(x, y, z, t)])\<rparr>"]
          exI[of _ r']) (simp add: update_conv')
qed

lemma removeBlockAt_simple:
  assumes "map_of (chunks w) (getChunkKey x y z) = Some r"
    and "occupancy r (getCellKey x y z) = Some t"
    and "batch_ok r t"
  shows "\<exists>w' r' i. removeBlockAt x y z w = Inr (Undefined, w') \<and>
         indexMaps r t (getCellKey x y z) = Some i \<and>
         map_of (chunks w') (getChunkKey x y z) = Some r' \<and>
         occupancy r' = (occupancy r)(getCellKey x y z := None) \<and>
         Suc (counts r' t) = counts r t \<and>
         (\<forall>t'. t' \<noteq> t \<longrightarrow> counts r' t' = counts r t')"
proof -
  from removeBlockAt_resident[OF assms] obtain r' i where
    "indexMaps r t (getCellKey x y z) = Some i"
    "removeBlockAt x y z w =
           Inr (Undefined,
                \<lparr>chunks = AList.update (getChunkKey x y z) r' (chunks w),
                 chunkData =
                   (case chunkData w (getChunkKey x y z) of
                      None \<Rightarrow> chunkData w
                    | Some arr \<Rightarrow>
                        (chunkData w)
                          (getChunkKey x y z \<mapsto>
                             filter (\<lambda>(c0, c1, c2, _). \<not> (c0 = x \<and> c1 = y \<and> c2 = z)) arr))\<rparr>)"
    "occupancy r' = (occupancy r)(getCellKey x y z := None)"
    "Suc (counts r' t) = counts r t"
    "\<forall>t'. t' \<noteq> t \<longrightarrow> meshes r' t' = meshes r t' \<and> indexMaps r' t' = indexMaps r t' \<and>
            cellsByIndex r' t' = cellsByIndex r t' \<and> counts r' t' = counts r t' \<and>
            capacities r' t' = capacities r t'"
    by (elim exE conjE) (rule that)
  then show ?thesis
    by (intro exI[of _ "\<lparr>chunks = AList.update (getChunkKey x y z) r' (chunks w),
                 chunkData =
                   (case chunkData w (getChunkKey x y z) of
                      None \<Rightarrow> chunkData w
                    | Some arr \<Rightarrow>
                        (chunkData w)
                          (getChunkKey x y z \<mapsto>
                             filter (\<lambda>(c0, c1, c2, _). \<not> (c0 = x \<and> c1 = y \<and> c2 = z)) arr))\<rparr>"]
          exI[of _ r'] exI[of _ i]) (simp add: update_conv')
qed

lemma placedWorld_facts:
  "addBlockAt (1/2) (7/2) (1/2) Brown firstWorld = Inr (Undefined, placedWorld)"
  "reachable placedWorld"
  "\<exists>r. map_of (chunks placedWorld) (Key 0 0 0) = Some r \<and>
       indexMaps r Brown (Key 0 3 0) = Some 0 \<and> counts r Brown = 1 \<and>
       occupancy r (Key 0 3 0) = Some Brown"
proof -
  from firstRecord obtain r where
    r: "map_of (chunks firstWorld) (Key 0 0 0) = Some r" "occupancy r (Key 0 3 0) = None"
      "counts r Brown = 0" "batch_ok r Brown"
    by blast
  from addBlockAt_simple[of firstWorld "1/2" "7/2" "1/2" r Brown] r obtain w' r' where
    a: "addBlockAt (1/2) (7/2) (1/2) Brown firstWorld = Inr (Undefined, w')"
      "map_of (chunks w') (Key 0 0 0) = Some r'"
      "occupancy r' = (occupancy r)(Key 0 3 0 \<mapsto> Brown)"
      "indexMaps r' Brown = (indexMaps r Brown)(Key 0 3 0 \<mapsto> counts r Brown)"
      "counts r' Brown = Suc (counts r Brown)"
    by auto
  from a(1) have w': "w' = placedWorld"
    by (simp add: placedWorld_def)
  from a(1) show 1: "addBlockAt (1/2) (7/2) (1/2) Brown firstWorld = Inr (Undefined, placedWorld)"
    by (simp add: w')
  have "addBlockAt (snapToGrid (1/2)) (snapToGrid (7/2)) (snapToGrid (1/2)) Brown firstWorld =
          Inr (Undefined, placedWorld)"
    using 1 by simp
  with firstWorld_reachable show "reachable placedWorld"
    by (rule reachable.place)
  from a r(3) show "\<exists>r. map_of (chunks placedWorld) (Key 0 0 0) = Some r \<and>
       indexMaps r Brown (Key 0 3 0) = Some 0 \<and> counts r Brown = 1 \<and>
       occupancy r (Key 0 3 0) = Some Brown"
    by (intro exI[of _ r']) (simp add: w')
qed

lemma removedWorld_facts:
  "removeBlockAt (1/2) (7/2) (1/2) placedWorld = Inr (Undefined, removedWorld)"
  "reachable removedWorld"
  "\<exists>r. map_of (chunks removedWorld) (Key 0 0 0) = Some r \<and> counts r Brown = 0 \<and>
       occupancy r (Key 0 3 0) = None"
proof -
  from placedWorld_facts(3) obtain r where
    r: "map_of (chunks placedWorld) (Key 0 0 0) = Some r" "counts r Brown = 1"
      "occupancy r (Key 0 3 0) = Some Brown"
    by blast
  have ok: "batch_ok r Brown"
    by (rule resident_batch_ok[OF placedWorld_facts(2) r(1)])
  from removeBlockAt_simple[of placedWorld "1/2" "7/2" "1/2" r Brown] r ok obtain w' r' where
    a: "removeBlockAt (1/2) (7/2) (1/2) placedWorld = Inr (Undefined, w')"
      "map_of (chunks w') (Key 0 0 0) = Some r'"
      "occupancy r' = (occupancy r)(Key 0 3 0 := None)" "Suc (counts r' Brown) = counts r Brown"
    by auto
  from a(1) have w': "w' = removedWorld"
    by (simp add: removedWorld_def)
  from a(1) show 1: "removeBlockAt (1/2) (7/2) (1/2) placedWorld = Inr (Undefined, removedWorld)"
    by (simp add: w')
  have "removeBlockAt (snapToGrid (1/2)) (snapToGrid (7/2)) (snapToGrid (1/2)) placedWorld =
          Inr (Undefined, removedWorld)"
    using 1 by simp
  with placedWorld_facts(2) show "reachable removedWorld"
    by (rule reachable.destroy)
  from a r(2) show "\<exists>r. map_of (chunks removedWorld) (Key 0 0 0) = Some r \<and> counts r Brown = 0 \<and>
       occupancy r (Key 0 3 0) = None"
    by (intro exI[of _ r']) (simp add: w')
qed

lemma replacedWorld_facts:
  "addBlockAt (1/2) (7/2) (1/2) Brown removedWorld = Inr (Undefined, replacedWorld)"
  "reachable replacedWorld"
  "\<exists>r. map_of (chunks replacedWorld) (Key 0 0 0) = Some r \<and>
       indexMaps r Brown (Key 0 3 0) = Some 0 \<and> occupancy r (Key 0 3 0) = Some Brown"
proof -
  from removedWorld_facts(3) obtain r where
    r: "map_of (chunks removedWorld) (Key 0 0 0) = Some r" "counts r Brown = 0"
      "occupancy r (Key 0 3 0) = None"
    by blast
  have ok: "batch_ok r Brown"
    by (rule resident_batch_ok[OF removedWorld_facts(2) r(1)])
  from addBlockAt_simple[of removedWorld "1/2" "7/2" "1/2" r Brown] r ok obtain w' r' where
    a: "addBlockAt (1/2) (7/2) (1/2) Brown removedWorld = Inr (Undefined, w')"
      "map_of (chunks w') (Key 0 0 0) = Some r'"
      "occupancy r' = (occupancy r)(Key 0 3 0 \<mapsto> Brown)"
      "indexMaps r' Brown = (indexMaps r Brown)(Key 0 3 0 \<mapsto> counts r Brown)"
    by auto
  from a(1) have w': "w' = replacedWorld"
    by (simp add: replacedWorld_def)
  from a(1) show 1: "addBlockAt (1/2) (7/2) (1/2) Brown removedWorld = Inr (Undefined, replacedWorld)"
    by (simp add: w')
  have "addBlockAt (snapToGrid (1/2)) (snapToGrid (7/2)) (snapToGrid (1/2)) Brown removedWorld =
          Inr (Undefined, replacedWorld)"
    using 1 by simp
  with removedWorld_facts(2) show "reachable replacedWorld"
    by (rule reachable.place)
  from a r(2) show "\<exists>r. map_of (chunks replacedWorld) (Key 0 0 0) = Some r \<and>
       indexMaps r Brown (Key 0 3 0) = Some 0 \<and> occupancy r (Key 0 3 0) = Some Brown"
    by (intro exI[of _ r']) (simp add: w')
qed

subsection \<open>edits return in every reachable state\<close>

lemma ensureCapacity_mesh:
  assumes "slots_ok r t n" "0 < needed"
  shows "meshes (ensureCapacityForType r t needed) t \<noteq> None"
proof (cases "needed \<le> capacities r t")
  case True
  with assms(2) have "capacities r t \<noteq> 0" by simp
  with slots_okD(7)[OF assms(1)] have "meshes r t \<noteq> None" by auto
  with True show ?thesis by (simp add: ensureCapacityForType_def)
next
  case False
  then show ?thesis by (simp add: ensureCapacityForType_def Let_def)
qed

lemma addBlockAt_reachable:
  assumes "reachable w"
  shows "\<exists>w'. addBlockAt x y z t w = Inr (Undefined, w')"
proof (cases "map_of (chunks w) (getChunkKey x y z)")
  case None
  then show ?thesis by (simp add: addBlockAt_def)
next
  case (Some r)
  show ?thesis
  proof (cases "occupancy r (getCellKey x y z)")
    case (Some u)
    with \<open>map_of (chunks w) (getChunkKey x y z) = Some r\<close> show ?thesis
      by (simp add: addBlockAt_def Let_def)
  next
    case None
    let ?rec1 = "r\<lparr>occupancy := (occupancy r)(getCellKey x y z \<mapsto> t)\<rparr>"
    let ?rec2 = "ensureCapacityForType ?rec1 t (counts ?rec1 t + 1)"
    have ok: "batch_ok r t"
      by (rule resident_batch_ok[OF assms \<open>map_of (chunks w) (getChunkKey x y z) = Some r\<close>])
    have "slots_ok ?rec1 t (counts r t) = slots_ok r t (counts r t)"
      by (intro slots_ok_cong) simp_all
    with batch_okD(1)[OF ok] have "slots_ok ?rec1 t (counts r t)" by simp
    from ensureCapacity_mesh[OF this, of "counts ?rec1 t + 1"]
    obtain m where m: "meshes ?rec2 t = Some m" by auto
    show ?thesis
      using \<open>map_of (chunks w) (getChunkKey x y z) = Some r\<close> None m
      by (simp add: addBlockAt_def Let_def setInstanceAt_def setDrawCount_def)
  qed
qed

lemma removeBlockAt_reachable:
  assumes "reachable w"
  shows "\<exists>w'. removeBlockAt x y z w = Inr (Undefined, w')"
proof (cases "map_of (chunks w) (getChunkKey x y z)")
  case None
  then show ?thesis by (simp add: removeBlockAt_def)
next
  case (Some r)
  show ?thesis
  proof (cases "occupancy r (getCellKey x y z)")
    case None
    with \<open>map_of (chunks w) (getChunkKey x y z) = Some r\<close> show ?thesis
      by (simp add: removeBlockAt_def Let_def)
  next
    case (Some t)
    have ok: "batch_ok r t"
      by (rule resident_batch_ok[OF assms \<open>map_of (chunks w) (getChunkKey x y z) = Some r\<close>])
    from removeBlockAt_simple[OF \<open>map_of (chunks w) (getChunkKey x y z) = Some r\<close> Some ok]
    show ?thesis by blast
  qed
qed

section \<open>The collision code\<close>

subsection \<open>vector arithmetic\<close>

lemma vlength_nonneg [simp]: "0 \<le> vlength v"
  by (cases v) simp

lemma sum_squares3_zero:
  "(a * a + b * b + c * c = 0) = (a = 0 \<and> b = 0 \<and> c = 0)" for a b c :: real
proof
  assume h: "a * a + b * b + c * c = 0"
  have "0 \<le> a * a" "0 \<le> b * b" "0 \<le> c * c" by simp_all
  with h have "a * a = 0" "b * b = 0" "c * c = 0" by linarith+
  then show "a = 0 \<and> b = 0 \<and> c = 0" by simp
qed simp

lemma vlength_zero_iff: "(vlength v = 0) = (v = Vec 0 0 0)"
proof (cases v)
  case (Vec a b c)
  have "0 \<le> a * a + b * b + c * c"
    by (intro add_nonneg_nonneg) simp_all
  then have "(sqrt (a * a + b * b + c * c) = 0) = (a * a + b * b + c * c = 0)"
    by simp
  then show ?thesis
    by (simp add: Vec sum_squares3_zero)
qed

lemma vlength_vscale: "vlength (vscale v k) = \<bar>k\<bar> * vlength v"
proof (cases v)
  case (Vec a b c)
  have "a * k * (a * k) + b * k * (b * k) + c * k * (c * k) = (k * k) * (a * a + b * b + c * c)"
    by (simp add: algebra_simps)
  then show ?thesis
    by (simp add: Vec real_sqrt_mult)
qed

lemma vnormalize_zero [simp]: "vnormalize (Vec 0 0 0) = Vec 0 0 0"
  by (simp add: vnormalize_def)

lemma vlength_vnormalize: "v \<noteq> Vec 0 0 0 \<Longrightarrow> vlength (vnormalize v) = 1"
proof -
  assume "v \<noteq> Vec 0 0 0"
  then have "vlength v \<noteq> 0" by (simp add: vlength_zero_iff)
  moreover have "0 \<le> vlength v" by simp
  ultimately show ?thesis
    by (simp add: vnormalize_def vlength_vscale)
qed

lemma vlength_vsub_commute: "vlength (vsub p q) = vlength (vsub q p)"
proof (cases p; cases q)
  fix a b c x y z assume "p = Vec a b c" "q = Vec x y z"
  moreover have "(a - x) * (a - x) + (b - y) * (b - y) + (c - z) * (c - z) =
                 (x - a) * (x - a) + (y - b) * (y - b) + (z - c) * (z - c)"
    by (simp add: algebra_simps)
  ultimately show ?thesis by simp
qed

lemma vsub_zero_iff: "(vsub p q = Vec 0 0 0) = (p = q)"
  by (cases p; cases q) auto

lemma vdot_commute: "vdot a b = vdot b a"
  by (cases a; cases b) (simp add: mult.commute)

lemma vdot_vscale_left: "vdot (vscale a k) b = k * vdot a b"
  by (cases a; cases b) (simp add: algebra_simps)

lemma vdot_vsub_left: "vdot (vsub a b) c = vdot a c - vdot b c"
  by (cases a; cases b; cases c) (simp add: algebra_simps)

lemma vscale_zero [simp]: "vscale v 0 = Vec 0 0 0"
  by (cases v) simp

lemma vscale_zero_vec [simp]: "vscale (Vec 0 0 0) k = Vec 0 0 0"
  by simp

lemma vadd_zero [simp]: "vadd v (Vec 0 0 0) = v" "vadd (Vec 0 0 0) v = v"
  by (cases v; simp)+

lemma vsub_zero [simp]: "vsub v (Vec 0 0 0) = v"
  by (cases v) simp

lemma vdot_zero [simp]: "vdot v (Vec 0 0 0) = 0" "vdot (Vec 0 0 0) v = 0"
  by (cases v; simp)+

subsection \<open>the store\<close>

lemma vec_store_vecs [simp]: "vecs (vec_store t v s) = (vecs s)(t := v)"
  by (simp add: vec_store_def)

lemma vec_store_nextObj [simp]: "nextObj (vec_store t v s) = nextObj s"
  by (simp add: vec_store_def)

lemmas vec_ops =
  vec_copy_def vec_add_def vec_sub_def vec_subVectors_def vec_multiplyScalar_def
  vec_addScalar_def vec_subScalar_def vec_normalize_def vec_set_def vec_clone_def
  vec_length_def vec_distanceTo_def vec_dot_def box_clampPoint_def
  box_setFromCenterAndSize_def capsule_translate_def

subsection \<open>the loop over the samples\<close>

lemma sample_step:
  fixes i :: nat
  assumes "vecs s TmpVec2 = vnormalize (vsub e a)" "vecs s ColliderStart = a"
    "vecs s BoxMin = cubeMin cell" "vecs s BoxMax = cubeMax cell"
  defines "s2 \<equiv> box_clampPoint TmpVec TmpClosest (vec_add TmpVec ColliderStart
                   (vec_multiplyScalar TmpVec ((real i / real steps) * vlength (vsub e a))
                      (vec_copy TmpVec TmpVec2 s)))"
  shows "vecs s2 TmpVec = samplePoint a e i"
    and "vecs s2 TmpClosest = closestPoint cell (samplePoint a e i)"
    and "vec_distanceTo TmpClosest TmpVec s2 = sampleDist cell a e i"
    and "\<forall>r. r \<noteq> TmpVec \<and> r \<noteq> TmpClosest \<longrightarrow> vecs s2 r = vecs s r"
    and "nextObj s2 = nextObj s"
  using assms(1-4)
  by (simp_all add: s2_def vec_ops Let_def samplePoint_def closestPoint_def sampleDist_def)

lemma sampleLoop_unfold:
  "sampleLoop radius segLen i s =
     (if i \<le> steps then
        if vec_distanceTo TmpClosest TmpVec
             (box_clampPoint TmpVec TmpClosest (vec_add TmpVec ColliderStart
                (vec_multiplyScalar TmpVec ((real i / real steps) * segLen)
                   (vec_copy TmpVec TmpVec2 s)))) < radius
        then (case vec_clone TmpVec
                (box_clampPoint TmpVec TmpClosest (vec_add TmpVec ColliderStart
                   (vec_multiplyScalar TmpVec ((real i / real steps) * segLen)
                      (vec_copy TmpVec TmpVec2 s)))) of
              (pushDir, s3) \<Rightarrow>
                (Some \<lparr>correction = pushDir, normal = pushDir\<rparr>,
                 vec_multiplyScalar pushDir
                   (radius - vec_distanceTo TmpClosest TmpVec
                      (box_clampPoint TmpVec TmpClosest (vec_add TmpVec ColliderStart
                         (vec_multiplyScalar TmpVec ((real i / real steps) * segLen)
                            (vec_copy TmpVec TmpVec2 s)))))
                   (vec_normalize pushDir (vec_sub pushDir TmpClosest s3))))
        else sampleLoop radius segLen (Suc i)
               (box_clampPoint TmpVec TmpClosest (vec_add TmpVec ColliderStart
                  (vec_multiplyScalar TmpVec ((real i / real steps) * segLen)
                     (vec_copy TmpVec TmpVec2 s))))
      else (None, s))"
  by (subst sampleLoop.simps) (simp only: Let_def)

lemma sampleLoop_hit:
  assumes "vecs s TmpVec2 = vnormalize (vsub e a)" "vecs s ColliderStart = a"
    "vecs s BoxMin = cubeMin cell" "vecs s BoxMax = cubeMax cell"
    and "i \<le> k" "k \<le> steps"
    and "\<forall>j. i \<le> j \<and> j < k \<longrightarrow> \<not> sampleDist cell a e j < radius"
    and "sampleDist cell a e k < radius"
  shows "\<exists>s'. sampleLoop radius (vlength (vsub e a)) i s =
             (Some \<lparr>correction = Obj (nextObj s), normal = Obj (nextObj s)\<rparr>, s') \<and>
           vecs s' (Obj (nextObj s)) =
             vscale (vnormalize (vsub (samplePoint a e k) (closestPoint cell (samplePoint a e k))))
               (radius - sampleDist cell a e k) \<and>
           (\<forall>r. r \<noteq> TmpVec \<and> r \<noteq> TmpClosest \<and> r \<noteq> Obj (nextObj s) \<longrightarrow> vecs s' r = vecs s r) \<and>
           nextObj s' = Suc (nextObj s)"
  using assms
proof (induction "k - i" arbitrary: i s)
  case 0
  then have ik: "i = k" by simp
  define s2 where "s2 = box_clampPoint TmpVec TmpClosest (vec_add TmpVec ColliderStart
                   (vec_multiplyScalar TmpVec ((real i / real steps) * vlength (vsub e a))
                      (vec_copy TmpVec TmpVec2 s)))"
  note st = sample_step[OF "0.prems"(1-4), of i, folded s2_def]
  note unf = sampleLoop_unfold[of radius "vlength (vsub e a)" i s, folded s2_def]
  define n where "n = nextObj s"
  define s5 where "s5 = vec_multiplyScalar (Obj n) (radius - sampleDist cell a e k)
               (vec_normalize (Obj n) (vec_sub (Obj n) TmpClosest
                  (s2\<lparr>vecs := (vecs s2)(Obj n := vecs s2 TmpVec), nextObj := Suc n\<rparr>)))"
  have cl: "vec_clone TmpVec s2 =
            (Obj n, s2\<lparr>vecs := (vecs s2)(Obj n := vecs s2 TmpVec), nextObj := Suc n\<rparr>)"
    by (simp add: vec_clone_def st(5) n_def)
  have hit: "vec_distanceTo TmpClosest TmpVec s2 < radius"
    using "0.prems"(8) by (simp add: st(3) ik)
  have run: "sampleLoop radius (vlength (vsub e a)) i s =
             (Some \<lparr>correction = Obj n, normal = Obj n\<rparr>, s5)"
    unfolding unf using "0.prems"(6) hit by (simp add: cl ik st(3) s5_def)
  have val: "vecs s5 (Obj n) =
             vscale (vnormalize (vsub (samplePoint a e k) (closestPoint cell (samplePoint a e k))))
               (radius - sampleDist cell a e k)"
    using st(1,2) by (simp add: s5_def vec_ops ik)
  have fr: "\<forall>r. r \<noteq> TmpVec \<and> r \<noteq> TmpClosest \<and> r \<noteq> Obj n \<longrightarrow> vecs s5 r = vecs s r"
    using st(4) by (simp add: s5_def vec_ops)
  have nx: "nextObj s5 = Suc n"
    by (simp add: s5_def vec_ops)
  show ?case
    unfolding n_def[symmetric]
    apply (rule exI[of _ s5])
    apply (intro conjI)
       apply (rule run)
      apply (rule val)
     apply (rule fr)
    apply (rule nx)
    done
next
  case (Suc d)
  then have ik: "i < k" by simp
  define s2 where "s2 = box_clampPoint TmpVec TmpClosest (vec_add TmpVec ColliderStart
                   (vec_multiplyScalar TmpVec ((real i / real steps) * vlength (vsub e a))
                      (vec_copy TmpVec TmpVec2 s)))"
  note st = sample_step[OF Suc.prems(1-4), of i, folded s2_def]
  note unf = sampleLoop_unfold[of radius "vlength (vsub e a)" i s, folded s2_def]
  have miss: "\<not> vec_distanceTo TmpClosest TmpVec s2 < radius"
    using Suc.prems(7) ik by (simp add: st(3))
  have step: "sampleLoop radius (vlength (vsub e a)) i s =
              sampleLoop radius (vlength (vsub e a)) (Suc i) s2"
    unfolding unf using ik Suc.prems(6) miss by simp
  have p: "vecs s2 TmpVec2 = vnormalize (vsub e a)" "vecs s2 ColliderStart = a"
    "vecs s2 BoxMin = cubeMin cell" "vecs s2 BoxMax = cubeMax cell"
    using st(4) Suc.prems(1-4) by simp_all
  have d: "d = k - Suc i" using Suc.hyps(2) by simp
  have le: "Suc i \<le> k" using ik by simp
  have none: "\<forall>j. Suc i \<le> j \<and> j < k \<longrightarrow> \<not> sampleDist cell a e j < radius"
    using Suc.prems(7) by simp
  from Suc.hyps(1)[OF d p le Suc.prems(6) none Suc.prems(8)] obtain s' where
    r: "sampleLoop radius (vlength (vsub e a)) (Suc i) s2 =
             (Some \<lparr>correction = Obj (nextObj s2), normal = Obj (nextObj s2)\<rparr>, s')"
    and v: "vecs s' (Obj (nextObj s2)) =
             vscale (vnormalize (vsub (samplePoint a e k) (closestPoint cell (samplePoint a e k))))
               (radius - sampleDist cell a e k)"
    and f: "\<forall>r. r \<noteq> TmpVec \<and> r \<noteq> TmpClosest \<and> r \<noteq> Obj (nextObj s2) \<longrightarrow> vecs s' r = vecs s2 r"
    and n: "nextObj s' = Suc (nextObj s2)"
    by (elim exE conjE) (rule that)
  have fr: "\<forall>r. r \<noteq> TmpVec \<and> r \<noteq> TmpClosest \<and> r \<noteq> Obj (nextObj s) \<longrightarrow> vecs s' r = vecs s r"
    using f st(4) by (simp add: st(5))
  have run: "sampleLoop radius (vlength (vsub e a)) i s =
             (Some \<lparr>correction = Obj (nextObj s), normal = Obj (nextObj s)\<rparr>, s')"
    unfolding step r st(5) ..
  show ?case
    apply (rule exI[of _ s'])
    apply (intro conjI)
       apply (rule run)
      apply (rule v[unfolded st(5)])
     apply (rule fr)
    apply (rule n[unfolded st(5)])
    done
qed

lemma sampleLoop_miss:
  assumes "vecs s TmpVec2 = vnormalize (vsub e a)" "vecs s ColliderStart = a"
    "vecs s BoxMin = cubeMin cell" "vecs s BoxMax = cubeMax cell"
    and "\<forall>j. i \<le> j \<and> j \<le> steps \<longrightarrow> \<not> sampleDist cell a e j < radius"
  shows "\<exists>s'. sampleLoop radius (vlength (vsub e a)) i s = (None, s') \<and>
           (\<forall>r. r \<noteq> TmpVec \<and> r \<noteq> TmpClosest \<longrightarrow> vecs s' r = vecs s r) \<and>
           nextObj s' = nextObj s"
  using assms
proof (induction "Suc steps - i" arbitrary: i s)
  case 0
  then have "\<not> i \<le> steps" by simp
  then have "sampleLoop radius (vlength (vsub e a)) i s = (None, s)"
    by (subst sampleLoop.simps) simp
  then show ?case by simp
next
  case (Suc d)
  then have il: "i \<le> steps" by simp
  define s2 where "s2 = box_clampPoint TmpVec TmpClosest (vec_add TmpVec ColliderStart
                   (vec_multiplyScalar TmpVec ((real i / real steps) * vlength (vsub e a))
                      (vec_copy TmpVec TmpVec2 s)))"
  note st = sample_step[OF Suc.prems(1-4), of i, folded s2_def]
  note unf = sampleLoop_unfold[of radius "vlength (vsub e a)" i s, folded s2_def]
  have miss: "\<not> vec_distanceTo TmpClosest TmpVec s2 < radius"
    using Suc.prems(5) il by (simp add: st(3))
  have step: "sampleLoop radius (vlength (vsub e a)) i s =
              sampleLoop radius (vlength (vsub e a)) (Suc i) s2"
    unfolding unf using il miss by simp
  have p: "vecs s2 TmpVec2 = vnormalize (vsub e a)" "vecs s2 ColliderStart = a"
    "vecs s2 BoxMin = cubeMin cell" "vecs s2 BoxMax = cubeMax cell"
    using st(4) Suc.prems(1-4) by simp_all
  have d: "d = Suc steps - Suc i" using Suc.hyps(2) by simp
  have none: "\<forall>j. Suc i \<le> j \<and> j \<le> steps \<longrightarrow> \<not> sampleDist cell a e j < radius"
    using Suc.prems(5) by simp
  from Suc.hyps(1)[OF d p none] obtain s' where
    r: "sampleLoop radius (vlength (vsub e a)) (Suc i) s2 = (None, s')"
    and f: "\<forall>r. r \<noteq> TmpVec \<and> r \<noteq> TmpClosest \<longrightarrow> vecs s' r = vecs s2 r"
    and n: "nextObj s' = nextObj s2"
    by (elim exE conjE) (rule that)
  have fr: "\<forall>r. r \<noteq> TmpVec \<and> r \<noteq> TmpClosest \<longrightarrow> vecs s' r = vecs s r"
    using f st(4) by simp
  have run: "sampleLoop radius (vlength (vsub e a)) i s = (None, s')"
    unfolding step r ..
  show ?case
    apply (rule exI[of _ s'])
    apply (intro conjI)
      apply (rule run)
     apply (rule fr)
    apply (rule n[unfolded st(5)])
    done
qed

subsection \<open>the intersection routine\<close>

lemma capsule_hit:
  assumes "vecs s ColliderStart = a" "vecs s ColliderEnd = e"
    "vecs s BoxMin = cubeMin cell" "vecs s BoxMax = cubeMax cell"
    and "k \<le> steps"
    and "\<forall>j. j < k \<longrightarrow> \<not> sampleDist cell a e j < radius"
    and "sampleDist cell a e k < radius"
  shows "\<exists>s'. capsuleIntersectCorrection radius s =
             (Some \<lparr>correction = Obj (nextObj s), normal = Obj (nextObj s)\<rparr>, s') \<and>
           vecs s' (Obj (nextObj s)) =
             vscale (vnormalize (vsub (samplePoint a e k) (closestPoint cell (samplePoint a e k))))
               (radius - sampleDist cell a e k) \<and>
           vecs s' ColliderStart = a \<and> vecs s' ColliderEnd = e \<and>
           vecs s' Velocity = vecs s Velocity \<and>
           nextObj s' = Suc (nextObj s)"
proof -
  define s2 where "s2 = vec_normalize TmpVec2 (vec_subVectors TmpVec2 ColliderEnd ColliderStart s)"
  have len: "vec_length TmpVec2 (vec_subVectors TmpVec2 ColliderEnd ColliderStart s) = vlength (vsub e a)"
    using assms(1,2) by (simp add: vec_ops)
  have run: "capsuleIntersectCorrection radius s = sampleLoop radius (vlength (vsub e a)) 0 s2"
    by (simp only: capsuleIntersectCorrection_def Let_def len s2_def)
  have p: "vecs s2 TmpVec2 = vnormalize (vsub e a)" "vecs s2 ColliderStart = a"
    "vecs s2 BoxMin = cubeMin cell" "vecs s2 BoxMax = cubeMax cell"
    using assms(1-4) by (simp_all add: s2_def vec_ops)
  have q: "vecs s2 ColliderEnd = e" "vecs s2 Velocity = vecs s Velocity" "nextObj s2 = nextObj s"
    using assms(2) by (simp_all add: s2_def vec_ops)
  have none: "\<forall>j. 0 \<le> j \<and> j < k \<longrightarrow> \<not> sampleDist cell a e j < radius"
    using assms(6) by simp
  from sampleLoop_hit[OF p le0 assms(5) none assms(7)] obtain s' where
    r: "sampleLoop radius (vlength (vsub e a)) 0 s2 =
             (Some \<lparr>correction = Obj (nextObj s2), normal = Obj (nextObj s2)\<rparr>, s')"
    and v: "vecs s' (Obj (nextObj s2)) =
             vscale (vnormalize (vsub (samplePoint a e k) (closestPoint cell (samplePoint a e k))))
               (radius - sampleDist cell a e k)"
    and f: "\<forall>r. r \<noteq> TmpVec \<and> r \<noteq> TmpClosest \<and> r \<noteq> Obj (nextObj s2) \<longrightarrow> vecs s' r = vecs s2 r"
    and n: "nextObj s' = Suc (nextObj s2)"
    by (elim exE conjE) (rule that)
  have a: "vecs s' ColliderStart = a" "vecs s' ColliderEnd = e" "vecs s' Velocity = vecs s Velocity"
    using f p(2) q(1,2) by simp_all
  show ?thesis
    apply (rule exI[of _ s'])
    apply (intro conjI)
         apply (simp only: run r q(3))
        apply (rule v[unfolded q(3)])
       apply (rule a(1))
      apply (rule a(2))
     apply (rule a(3))
    apply (rule n[unfolded q(3)])
    done
qed

subsection \<open>one cell of the collision pass\<close>

lemma box_setup:
  fixes x y z :: int and s :: vstore
  defines "s3 \<equiv> box_setFromCenterAndSize TmpPos TmpVec
                   (vec_set TmpVec 1 1 1
                      (vec_set TmpPos (real_of_int x + 1/2) (real_of_int y + 1/2) (real_of_int z + 1/2) s))"
  shows "vecs s3 BoxMin = cubeMin (x, y, z)"
    and "vecs s3 BoxMax = cubeMax (x, y, z)"
    and "vecs s3 ColliderStart = vecs s ColliderStart"
    and "vecs s3 ColliderEnd = vecs s ColliderEnd"
    and "vecs s3 Velocity = vecs s Velocity"
    and "nextObj s3 = nextObj s"
  by (simp_all add: s3_def vec_ops Let_def cubeMin_def cubeMax_def)

lemma collideCell_unfold:
  assumes "getChunkRecordAtCell cs x y z = Some rec"
    and "getCellKey (real_of_int x) (real_of_int y) (real_of_int z) \<notin> set visited"
    and "occupancy rec (getCellKey (real_of_int x) (real_of_int y) (real_of_int z)) \<noteq> None"
  shows "collideCell cs radius (x, y, z) (visited, s) =
     (case capsuleIntersectCorrection radius
             (box_setFromCenterAndSize TmpPos TmpVec
                (vec_set TmpVec 1 1 1
                   (vec_set TmpPos (real_of_int x + 1/2) (real_of_int y + 1/2) (real_of_int z + 1/2) s))) of
        (None, s4) \<Rightarrow> (getCellKey (real_of_int x) (real_of_int y) (real_of_int z) # visited, s4)
      | (Some result, s4) \<Rightarrow>
          (case vec_clone (normal result) (capsule_translate (correction result) s4) of
             (n, s6) \<Rightarrow>
               (getCellKey (real_of_int x) (real_of_int y) (real_of_int z) # visited,
                vec_sub Velocity n
                  (vec_multiplyScalar n
                     (vec_dot Velocity (normal result) (capsule_translate (correction result) s4)) s6))))"
  unfolding collideCell_def using assms
  by (simp only: prod.case option.case Let_def if_False simp_thms)

lemma collideCell_hit:
  assumes rec: "getChunkRecordAtCell cs x y z = Some rec"
    and fresh: "getCellKey (real_of_int x) (real_of_int y) (real_of_int z) \<notin> set visited"
    and occ: "occupancy rec (getCellKey (real_of_int x) (real_of_int y) (real_of_int z)) \<noteq> None"
    and st: "vecs s ColliderStart = a" "vecs s ColliderEnd = e" "vecs s Velocity = v"
    and k: "k \<le> steps"
    and none: "\<forall>j. j < k \<longrightarrow> \<not> sampleDist (x, y, z) a e j < radius"
    and hit: "sampleDist (x, y, z) a e k < radius"
    and c: "c = vscale (vnormalize (vsub (samplePoint a e k) (closestPoint (x, y, z) (samplePoint a e k))))
                  (radius - sampleDist (x, y, z) a e k)"
  shows "\<exists>s'. collideCell cs radius (x, y, z) (visited, s) =
                (getCellKey (real_of_int x) (real_of_int y) (real_of_int z) # visited, s') \<and>
              vecs s' ColliderStart = vadd a c \<and>
              vecs s' ColliderEnd = vadd e c \<and>
              vecs s' Velocity = vsub v (vscale c (vdot v c))"
proof -
  define s3 where "s3 = box_setFromCenterAndSize TmpPos TmpVec
                   (vec_set TmpVec 1 1 1
                      (vec_set TmpPos (real_of_int x + 1/2) (real_of_int y + 1/2) (real_of_int z + 1/2) s))"
  note b = box_setup[of x y z s, folded s3_def]
  note unf = collideCell_unfold[OF rec fresh occ, of radius s, folded s3_def]
  have p: "vecs s3 ColliderStart = a" "vecs s3 ColliderEnd = e"
    using b(3,4) st(1,2) by simp_all
  define n where "n = nextObj s3"
  from capsule_hit[OF p b(1,2) k none hit, folded n_def c] obtain s4 where
    r: "capsuleIntersectCorrection radius s3 = (Some \<lparr>correction = Obj n, normal = Obj n\<rparr>, s4)"
    and val: "vecs s4 (Obj n) = c"
    and f: "vecs s4 ColliderStart = a" "vecs s4 ColliderEnd = e" "vecs s4 Velocity = vecs s3 Velocity"
    and nx: "nextObj s4 = Suc n"
    by (elim exE conjE) (rule that)
  define s' where "s' = vec_sub Velocity (Obj (Suc n))
      (vec_multiplyScalar (Obj (Suc n)) (vec_dot Velocity (Obj n) (capsule_translate (Obj n) s4))
         (snd (vec_clone (Obj n) (capsule_translate (Obj n) s4))))"
  have cl: "fst (vec_clone (Obj n) (capsule_translate (Obj n) s4)) = Obj (Suc n)"
    using nx by (simp add: vec_ops)
  have run: "collideCell cs radius (x, y, z) (visited, s) =
               (getCellKey (real_of_int x) (real_of_int y) (real_of_int z) # visited, s')"
    unfolding unf r s'_def using cl by (simp add: case_prod_beta)
  have vel: "vecs s4 Velocity = v"
    using f(3) b(5) st(3) by simp
  have 1: "vecs s' ColliderStart = vadd a c"
    using f(1) val by (simp add: s'_def vec_ops)
  have 2: "vecs s' ColliderEnd = vadd e c"
    using f(2) val by (simp add: s'_def vec_ops)
  have 3: "vecs s' Velocity = vsub v (vscale c (vdot v c))"
    using vel val nx by (simp add: s'_def vec_ops)
  show ?thesis
    apply (rule exI[of _ s'])
    apply (intro conjI)
       apply (rule run)
      apply (rule 1)
     apply (rule 2)
    apply (rule 3)
    done
qed

section \<open>The claims about the chunk store\<close>

lemma recordAt_eq: "map_of (chunks w) k = Some r \<Longrightarrow> recordAt w k = r"
  by (simp add: recordAt_def)

lemma occ_matches_unique:
  assumes "occ_matches r arr" "occ_matches r' arr"
  shows "occupancy r' = occupancy r"
proof (rule ext)
  fix c
  have "\<And>t. (occupancy r' c = Some t) = (occupancy r c = Some t)"
    using assms unfolding occ_matches_def by simp
  then show "occupancy r' c = occupancy r c"
    by (cases "occupancy r c"; cases "occupancy r' c") auto
qed

text \<open>
  C1 (round-trip persistence). In every state the program reaches by frames and by
  edits at snapped coordinates, a resident chunk that is unloaded and loaded again
  is rebuilt from its array in \<open>chunkData\<close> (which the two steps leave as it
  was), and the rebuilt record has the occupancy map the record had at the moment
  of the unload. Equal maps have equal sets of cell-to-material pairs.
\<close>

theorem round_trip_persistence:
  assumes "reachable w" and "map_of (chunks w) k = Some r"
  shows "\<exists>w' r' arr. loadOrGenerateChunk (keyX k) (keyZ k) (unloadChunk k w) = Inr w' \<and>
           map_of (chunks w') k = Some r' \<and> occupancy r' = occupancy r \<and>
           chunkData w k = Some arr \<and> buildRecord arr = Inr r' \<and> chunkData w' = chunkData w"
proof -
  have w: "world_ok w" by (rule reachable_world_ok[OF assms(1)])
  from world_okD(1)[OF w assms(2)] obtain arr where
    ky: "keyY k = 0" and arr: "chunkData w k = Some arr" and om: "occ_matches r arr"
    by (auto simp: chunk_ok_def)
  have k: "k = Key (keyX k) 0 (keyZ k)"
    using ky by (cases k) simp
  let ?u = "unloadChunk k w"
  have gone: "map_of (chunks ?u) (Key (keyX k) 0 (keyZ k)) = None"
    using unloadChunk_chunks[of k w] k by simp
  have src: "chunkSource ?u (Key (keyX k) 0 (keyZ k)) = arr"
    using arr k by (simp add: chunkSource_def)
  from loadOrGenerateChunk_absent[OF gone] obtain r' where
    b: "buildRecord arr = Inr r'"
    and l: "loadOrGenerateChunk (keyX k) (keyZ k) ?u =
             Inr \<lparr>chunks = AList.update (Key (keyX k) 0 (keyZ k)) r' (chunks ?u),
                  chunkData = (chunkData ?u)(Key (keyX k) 0 (keyZ k) \<mapsto> arr)\<rparr>"
    unfolding src by blast
  let ?w' = "\<lparr>chunks = AList.update (Key (keyX k) 0 (keyZ k)) r' (chunks ?u),
                  chunkData = (chunkData ?u)(Key (keyX k) 0 (keyZ k) \<mapsto> arr)\<rparr>"
  from buildRecord_ok[OF world_okD(2)[OF w arr]] b have "occ_matches r' arr"
    by auto
  with om have occ: "occupancy r' = occupancy r"
    by (rule occ_matches_unique)
  have res: "map_of (chunks ?w') k = Some r'"
    by (subst (2) k) (simp add: update_conv')
  have "(chunkData w)(Key (keyX k) 0 (keyZ k) \<mapsto> arr) = chunkData w"
    using arr k by (intro map_upd_triv) simp
  then have dat: "chunkData ?w' = chunkData w"
    by simp
  show ?thesis
    apply (rule exI[of _ ?w'])
    apply (rule exI[of _ r'])
    apply (rule exI[of _ arr])
    apply (intro conjI)
         apply (rule l)
        apply (rule res)
       apply (rule occ)
      apply (rule arr)
     apply (rule b)
    apply (rule dat)
    done
qed

theorem round_trip_persistence_witness:
  "reachable placedWorld \<and>
   map_of (chunks placedWorld) (Key 0 0 0) = Some (recordAt placedWorld (Key 0 0 0)) \<and>
   occupancy (recordAt placedWorld (Key 0 0 0)) (Key 0 3 0) = Some Brown \<and>
   (\<exists>w' r' arr. loadOrGenerateChunk 0 0 (unloadChunk (Key 0 0 0) placedWorld) = Inr w' \<and>
       map_of (chunks w') (Key 0 0 0) = Some r' \<and>
       occupancy r' = occupancy (recordAt placedWorld (Key 0 0 0)) \<and>
       chunkData placedWorld (Key 0 0 0) = Some arr \<and> buildRecord arr = Inr r' \<and>
       chunkData w' = chunkData placedWorld)"
proof -
  from placedWorld_facts(3) obtain r where
    r: "map_of (chunks placedWorld) (Key 0 0 0) = Some r" "occupancy r (Key 0 3 0) = Some Brown"
    by blast
  have eq: "recordAt placedWorld (Key 0 0 0) = r"
    by (rule recordAt_eq[OF r(1)])
  from round_trip_persistence[OF placedWorld_facts(2) r(1)] r placedWorld_facts(2)
  show ?thesis
    unfolding eq by simp
qed

text \<open>
  C6 (generator reference definition). For every chunk coordinate \<open>(cx, cz)\<close>,
  \<open>generateGroundArrayForChunk\<close> returns 768 elements, no element twice, and
  they are exactly the elements
  \<open>(cx*16 + x + 0.5, y + 0.5, cz*16 + z + 0.5, green)\<close> for \<open>x\<close> and
  \<open>z\<close> in 0..15 and \<open>y\<close> in 0..2: one ground element per cell of the
  footprint and layer. The result is a function of \<open>cx\<close> and \<open>cz\<close> alone:
  the source reads nothing else but the constant \<open>CHUNK_SIZE\<close>.
\<close>

theorem generate_reference:
  "length (generateGroundArrayForChunk cx cz) = 768 \<and>
   distinct (generateGroundArrayForChunk cx cz) \<and>
   set (generateGroundArrayForChunk cx cz) =
     (\<lambda>(x, z, y). (real_of_int (cx * 16 + x) + 1/2, real_of_int y + 1/2,
                    real_of_int (cz * 16 + z) + 1/2, Green)) ` ({0..15} \<times> {0..15} \<times> {0..2})"
  using generate_length[of cx cz] generate_distinct[of cx cz] generate_set[of cx cz]
  by (simp add: CHUNK_SIZE_def)

text \<open>
  C2 (batch density invariant). In every state the program reaches, for every
  resident chunk and each material: the index-to-cell array has exactly
  \<open>counts\<close> entries and the mesh draws exactly the slots below \<open>counts\<close>;
  every slot below \<open>counts\<close> holds a cell of the occupancy with that material
  (no gaps), and the cell-to-index map sends that cell back to the slot; the
  cell-to-index map holds occupied cells of that material only; and every cell of the
  occupancy with that material has exactly one slot below \<open>counts\<close>, on which the
  two directions agree, and the matrix stored in that slot is the translation to the
  centre of the cell.
\<close>

theorem batch_density_invariant:
  assumes "reachable w" and "map_of (chunks w) k = Some r"
  shows "length (cellsByIndex r t) = counts r t \<and>
   (\<forall>m. meshes r t = Some m \<longrightarrow> drawCount m = counts r t \<and> counts r t \<le> length (instanceMatrix m)) \<and>
   (\<forall>i<counts r t. \<exists>c. cellsByIndex r t ! i = Some c \<and> indexMaps r t c = Some i \<and>
        occupancy r c = Some t) \<and>
   (\<forall>c i. indexMaps r t c = Some i \<longrightarrow> occupancy r c = Some t) \<and>
   (\<forall>c. occupancy r c = Some t \<longrightarrow>
      (\<exists>i m. indexMaps r t c = Some i \<and> i < counts r t \<and> cellsByIndex r t ! i = Some c \<and>
         (\<forall>j<counts r t. cellsByIndex r t ! j = Some c \<longrightarrow> j = i) \<and>
         meshes r t = Some m \<and> i < drawCount m \<and> i < length (instanceMatrix m) \<and>
         instanceMatrix m ! i =
           Translation (real_of_int (keyX c) + 1/2) (real_of_int (keyY c) + 1/2)
             (real_of_int (keyZ c) + 1/2)))"
proof -
  have ok: "batch_ok r t"
    by (rule resident_batch_ok[OF assms])
  note s = batch_okD(1)[OF ok]
  have a: "length (cellsByIndex r t) = counts r t"
    by (rule slots_okD(1)[OF s])
  have b: "\<forall>m. meshes r t = Some m \<longrightarrow> drawCount m = counts r t \<and> counts r t \<le> length (instanceMatrix m)"
  proof (intro allI impI)
    fix m assume m: "meshes r t = Some m"
    have "drawCount m = counts r t" by (rule batch_okD(3)[OF ok m])
    moreover have "length (instanceMatrix m) = capacities r t" by (rule slots_okD(6)[OF s m])
    moreover have "counts r t \<le> capacities r t" by (rule slots_okD(2)[OF s])
    ultimately show "drawCount m = counts r t \<and> counts r t \<le> length (instanceMatrix m)"
      by simp
  qed
  have c: "\<forall>i<counts r t. \<exists>c. cellsByIndex r t ! i = Some c \<and> indexMaps r t c = Some i \<and>
        occupancy r c = Some t"
  proof (intro allI impI)
    fix i assume "i < counts r t"
    from slots_okD(3)[OF s this] obtain c where
      c: "cellsByIndex r t ! i = Some c" "indexMaps r t c = Some i" by blast
    with batch_okD(2)[OF ok, of c] show "\<exists>c. cellsByIndex r t ! i = Some c \<and>
        indexMaps r t c = Some i \<and> occupancy r c = Some t"
      by auto
  qed
  have d: "\<forall>c i. indexMaps r t c = Some i \<longrightarrow> occupancy r c = Some t"
  proof (intro allI impI)
    fix c i assume "indexMaps r t c = Some i"
    then show "occupancy r c = Some t"
      using batch_okD(2)[OF ok, of c] by simp
  qed
  have e: "\<forall>c. occupancy r c = Some t \<longrightarrow>
      (\<exists>i m. indexMaps r t c = Some i \<and> i < counts r t \<and> cellsByIndex r t ! i = Some c \<and>
         (\<forall>j<counts r t. cellsByIndex r t ! j = Some c \<longrightarrow> j = i) \<and>
         meshes r t = Some m \<and> i < drawCount m \<and> i < length (instanceMatrix m) \<and>
         instanceMatrix m ! i =
           Translation (real_of_int (keyX c) + 1/2) (real_of_int (keyY c) + 1/2)
             (real_of_int (keyZ c) + 1/2))"
  proof (intro allI impI)
    fix c assume "occupancy r c = Some t"
    with batch_okD(2)[OF ok, of c] obtain i where i: "indexMaps r t c = Some i" by auto
    from slots_okD(4)[OF s i] have il: "i < counts r t" and ci: "cellsByIndex r t ! i = Some c"
      by auto
    have uniq: "\<forall>j<counts r t. cellsByIndex r t ! j = Some c \<longrightarrow> j = i"
    proof (intro allI impI)
      fix j assume j: "j < counts r t" "cellsByIndex r t ! j = Some c"
      from slots_okD(3)[OF s j(1)] obtain c' where
        "cellsByIndex r t ! j = Some c'" "indexMaps r t c' = Some j" by blast
      with j(2) have "indexMaps r t c = Some j" by simp
      with i show "j = i" by simp
    qed
    from il slots_okD(2)[OF s] have "capacities r t \<noteq> 0" by simp
    with slots_okD(7)[OF s] obtain m where m: "meshes r t = Some m"
      by (cases "meshes r t") auto
    have mat: "instanceMatrix m ! i =
           Translation (real_of_int (keyX c) + 1/2) (real_of_int (keyY c) + 1/2)
             (real_of_int (keyZ c) + 1/2)"
      using slots_okD(5)[OF s m i] by (simp add: cellCentre_def)
    have dc: "i < drawCount m" "i < length (instanceMatrix m)"
      using b[rule_format, OF m] il by simp_all
    show "\<exists>i m. indexMaps r t c = Some i \<and> i < counts r t \<and> cellsByIndex r t ! i = Some c \<and>
         (\<forall>j<counts r t. cellsByIndex r t ! j = Some c \<longrightarrow> j = i) \<and>
         meshes r t = Some m \<and> i < drawCount m \<and> i < length (instanceMatrix m) \<and>
         instanceMatrix m ! i =
           Translation (real_of_int (keyX c) + 1/2) (real_of_int (keyY c) + 1/2)
             (real_of_int (keyZ c) + 1/2)"
      apply (rule exI[of _ i])
      apply (rule exI[of _ m])
      apply (intro conjI)
             apply (rule i)
            apply (rule il)
           apply (rule ci)
          apply (rule uniq)
         apply (rule m)
        apply (rule dc(1))
       apply (rule dc(2))
      apply (rule mat)
      done
  qed
  from a b c d e show ?thesis by (intro conjI)
qed

theorem batch_density_invariant_witness:
  "reachable replacedWorld \<and>
   map_of (chunks replacedWorld) (Key 0 0 0) = Some (recordAt replacedWorld (Key 0 0 0)) \<and>
   occupancy (recordAt replacedWorld (Key 0 0 0)) (Key 0 3 0) = Some Brown \<and>
   (\<exists>i m. indexMaps (recordAt replacedWorld (Key 0 0 0)) Brown (Key 0 3 0) = Some i \<and>
      i < counts (recordAt replacedWorld (Key 0 0 0)) Brown \<and>
      cellsByIndex (recordAt replacedWorld (Key 0 0 0)) Brown ! i = Some (Key 0 3 0) \<and>
      meshes (recordAt replacedWorld (Key 0 0 0)) Brown = Some m \<and> i < drawCount m \<and>
      instanceMatrix m ! i = Translation (1/2) (7/2) (1/2))"
proof -
  from replacedWorld_facts(3) obtain r where
    r: "map_of (chunks replacedWorld) (Key 0 0 0) = Some r" "occupancy r (Key 0 3 0) = Some Brown"
    by blast
  have eq: "recordAt replacedWorld (Key 0 0 0) = r"
    by (rule recordAt_eq[OF r(1)])
  note T = batch_density_invariant[OF replacedWorld_facts(2) r(1), of Brown]
  note E = T[THEN conjunct2, THEN conjunct2, THEN conjunct2, THEN conjunct2, rule_format, OF r(2)]
  from E obtain i m where
    "indexMaps r Brown (Key 0 3 0) = Some i" "i < counts r Brown"
    "cellsByIndex r Brown ! i = Some (Key 0 3 0)" "meshes r Brown = Some m" "i < drawCount m"
    "instanceMatrix m ! i =
           Translation (real_of_int (keyX (Key 0 3 0)) + 1/2) (real_of_int (keyY (Key 0 3 0)) + 1/2)
             (real_of_int (keyZ (Key 0 3 0)) + 1/2)"
    by (elim exE conjE) (rule that)
  then have "\<exists>i m. indexMaps r Brown (Key 0 3 0) = Some i \<and> i < counts r Brown \<and>
         cellsByIndex r Brown ! i = Some (Key 0 3 0) \<and>
         meshes r Brown = Some m \<and> i < drawCount m \<and>
         instanceMatrix m ! i = Translation (1/2) (7/2) (1/2)"
    by (intro exI[of _ i] exI[of _ m]) simp
  with r replacedWorld_facts(2) show ?thesis
    unfolding eq by simp
qed

lemma resident_keys: "fst ` set (chunks w) = dom (map_of (chunks w))"
  by (simp add: dom_map_of_conv_image_fst)

text \<open>
  C4 (streaming reconciliation). From any state, one call of \<open>updateChunks\<close>
  returns, and afterwards the keys of the resident chunks are exactly the square
  neighbourhood of radius \<open>RENDER_DISTANCE\<close> around the chunk coordinate of the
  camera. A coordinate of the neighbourhood that was resident keeps its record and
  its array; one that was not is built from its array in \<open>chunkData\<close> when there
  is one, and otherwise from the generated array, which is then its array in
  \<open>chunkData\<close>. Outside the neighbourhood nothing is resident any more, and the
  arrays in \<open>chunkData\<close> are as before.
\<close>

theorem streaming_reconciliation:
  "\<exists>w'. updateChunks camx camz w = Inr w' \<and>
     fst ` set (chunks w') =
       neighbourhood \<lfloor>camx / real_of_int CHUNK_SIZE\<rfloor> \<lfloor>camz / real_of_int CHUNK_SIZE\<rfloor> \<and>
     (\<forall>k. k \<in> neighbourhood \<lfloor>camx / real_of_int CHUNK_SIZE\<rfloor> \<lfloor>camz / real_of_int CHUNK_SIZE\<rfloor> \<longrightarrow>
          map_of (chunks w) k \<noteq> None \<longrightarrow>
          map_of (chunks w') k = map_of (chunks w) k \<and> chunkData w' k = chunkData w k) \<and>
     (\<forall>k. k \<in> neighbourhood \<lfloor>camx / real_of_int CHUNK_SIZE\<rfloor> \<lfloor>camz / real_of_int CHUNK_SIZE\<rfloor> \<longrightarrow>
          map_of (chunks w) k = None \<longrightarrow>
          (\<exists>r. buildRecord (chunkSource w k) = Inr r \<and> map_of (chunks w') k = Some r) \<and>
          chunkData w' k = Some (chunkSource w k)) \<and>
     (\<forall>k. k \<notin> neighbourhood \<lfloor>camx / real_of_int CHUNK_SIZE\<rfloor> \<lfloor>camz / real_of_int CHUNK_SIZE\<rfloor> \<longrightarrow>
          map_of (chunks w') k = None \<and> chunkData w' k = chunkData w k)"
proof -
  let ?N = "neighbourhood \<lfloor>camx / real_of_int CHUNK_SIZE\<rfloor> \<lfloor>camz / real_of_int CHUNK_SIZE\<rfloor>"
  from updateChunks_effect[of camx camz w] obtain w' where
    run: "updateChunks camx camz w = Inr w'"
    and d: "dom (map_of (chunks w')) = ?N"
    and keep: "\<forall>k. k \<in> ?N \<longrightarrow> map_of (chunks w) k \<noteq> None \<longrightarrow>
          map_of (chunks w') k = map_of (chunks w) k \<and> chunkData w' k = chunkData w k"
    and new: "\<forall>k. k \<in> ?N \<longrightarrow> map_of (chunks w) k = None \<longrightarrow>
          (\<exists>r. buildRecord (chunkSource w k) = Inr r \<and> map_of (chunks w') k = Some r) \<and>
          chunkData w' k = Some (chunkSource w k)"
    and other: "\<forall>k. k \<notin> ?N \<longrightarrow> chunkData w' k = chunkData w k"
    by (elim exE conjE) (rule that)
  have keys: "fst ` set (chunks w') = ?N"
    using d by (simp add: resident_keys)
  have out: "\<forall>k. k \<notin> ?N \<longrightarrow> map_of (chunks w') k = None \<and> chunkData w' k = chunkData w k"
  proof (intro allI impI)
    fix k assume k: "k \<notin> ?N"
    then have "k \<notin> dom (map_of (chunks w'))" using d by simp
    then have "map_of (chunks w') k = None" by (simp add: domIff)
    moreover have "chunkData w' k = chunkData w k" using other k by blast
    ultimately show "map_of (chunks w') k = None \<and> chunkData w' k = chunkData w k" by simp
  qed
  show ?thesis
    apply (rule exI[of _ w'])
    apply (intro conjI)
        apply (rule run)
       apply (rule keys)
      apply (rule keep)
     apply (rule new)
    apply (rule out)
    done
qed

text \<open>
  The scenario of the specification: the viewer is in chunk (0,0,0), then in chunk
  (3,0,0) (camera at x = 56). After the second call the chunk (0,0,0) is no longer
  resident, (1,0,0) has kept its record, and (5,0,2), which was never loaded before,
  is resident with the generated array cached.
\<close>

theorem streaming_reconciliation_witness:
  "updateChunks 0 0 initialWorld = Inr firstWorld \<and>
   Key 0 0 0 \<in> fst ` set (chunks firstWorld) \<and>
   Key 1 0 0 \<in> neighbourhood 3 0 \<and> map_of (chunks firstWorld) (Key 1 0 0) \<noteq> None \<and>
   Key 5 0 2 \<in> neighbourhood 3 0 \<and> map_of (chunks firstWorld) (Key 5 0 2) = None \<and>
   Key 0 0 0 \<notin> neighbourhood 3 0 \<and>
   (\<exists>w'. updateChunks 56 0 firstWorld = Inr w' \<and>
      fst ` set (chunks w') = neighbourhood 3 0 \<and>
      map_of (chunks w') (Key 0 0 0) = None \<and>
      map_of (chunks w') (Key 1 0 0) = map_of (chunks firstWorld) (Key 1 0 0) \<and>
      (\<exists>r. buildRecord (generateGroundArrayForChunk 5 2) = Inr r \<and>
           map_of (chunks w') (Key 5 0 2) = Some r) \<and>
      chunkData w' (Key 5 0 2) = Some (generateGroundArrayForChunk 5 2))"
proof -
  have n0: "Key 0 0 0 \<in> neighbourhood 0 0" "Key 1 0 0 \<in> neighbourhood 0 0"
    "Key 5 0 2 \<notin> neighbourhood 0 0"
    by (simp_all add: neighbourhood_def RENDER_DISTANCE_def)
  have n3: "Key 1 0 0 \<in> neighbourhood 3 0" "Key 5 0 2 \<in> neighbourhood 3 0"
    "Key 0 0 0 \<notin> neighbourhood 3 0"
    by (simp_all add: neighbourhood_def RENDER_DISTANCE_def)
  have fl: "\<lfloor>0 / real_of_int CHUNK_SIZE\<rfloor> = 0" "\<lfloor>56 / real_of_int CHUNK_SIZE\<rfloor> = 3"
    by (simp_all add: CHUNK_SIZE_def)
  note T0 = streaming_reconciliation[of 0 0 initialWorld, unfolded fl firstWorld_run]
  from T0 have k0: "fst ` set (chunks firstWorld) = neighbourhood 0 0"
    and o0: "\<forall>k. k \<notin> neighbourhood 0 0 \<longrightarrow>
          map_of (chunks firstWorld) k = None \<and> chunkData firstWorld k = chunkData initialWorld k"
    by simp_all
  have a1: "Key 0 0 0 \<in> fst ` set (chunks firstWorld)"
    using k0 n0(1) by simp
  have "Key 1 0 0 \<in> dom (map_of (chunks firstWorld))"
    using k0 n0(2) by (simp add: resident_keys)
  then have a2: "map_of (chunks firstWorld) (Key 1 0 0) \<noteq> None"
    by (simp add: domIff)
  have a3: "map_of (chunks firstWorld) (Key 5 0 2) = None"
    and a4: "chunkData firstWorld (Key 5 0 2) = None"
    using o0[rule_format, OF n0(3)] by (simp_all add: initialWorld_def)
  have src: "chunkSource firstWorld (Key 5 0 2) = generateGroundArrayForChunk 5 2"
    using a4 by (simp add: chunkSource_def)
  from streaming_reconciliation[of 56 0 firstWorld, unfolded fl] obtain w' where
    run: "updateChunks 56 0 firstWorld = Inr w'"
    and keys: "fst ` set (chunks w') = neighbourhood 3 0"
    and keep: "\<forall>k. k \<in> neighbourhood 3 0 \<longrightarrow> map_of (chunks firstWorld) k \<noteq> None \<longrightarrow>
          map_of (chunks w') k = map_of (chunks firstWorld) k \<and> chunkData w' k = chunkData firstWorld k"
    and new: "\<forall>k. k \<in> neighbourhood 3 0 \<longrightarrow> map_of (chunks firstWorld) k = None \<longrightarrow>
          (\<exists>r. buildRecord (chunkSource firstWorld k) = Inr r \<and> map_of (chunks w') k = Some r) \<and>
          chunkData w' k = Some (chunkSource firstWorld k)"
    and out: "\<forall>k. k \<notin> neighbourhood 3 0 \<longrightarrow>
          map_of (chunks w') k = None \<and> chunkData w' k = chunkData firstWorld k"
    by (elim exE conjE) (rule that)
  have b1: "map_of (chunks w') (Key 0 0 0) = None"
    using out[rule_format, OF n3(3)] by simp
  have b2: "map_of (chunks w') (Key 1 0 0) = map_of (chunks firstWorld) (Key 1 0 0)"
    using keep[rule_format, OF n3(1) a2] by simp
  have b3: "(\<exists>r. buildRecord (generateGroundArrayForChunk 5 2) = Inr r \<and>
           map_of (chunks w') (Key 5 0 2) = Some r)"
    and b4: "chunkData w' (Key 5 0 2) = Some (generateGroundArrayForChunk 5 2)"
    using new[rule_format, OF n3(2) a3] unfolding src by simp_all
  have ex: "\<exists>w'. updateChunks 56 0 firstWorld = Inr w' \<and>
      fst ` set (chunks w') = neighbourhood 3 0 \<and>
      map_of (chunks w') (Key 0 0 0) = None \<and>
      map_of (chunks w') (Key 1 0 0) = map_of (chunks firstWorld) (Key 1 0 0) \<and>
      (\<exists>r. buildRecord (generateGroundArrayForChunk 5 2) = Inr r \<and>
           map_of (chunks w') (Key 5 0 2) = Some r) \<and>
      chunkData w' (Key 5 0 2) = Some (generateGroundArrayForChunk 5 2)"
    apply (rule exI[of _ w'])
    apply (intro conjI)
         apply (rule run)
        apply (rule keys)
       apply (rule b1)
      apply (rule b2)
     apply (rule b3)
    apply (rule b4)
    done
  show ?thesis
    apply (intro conjI)
           apply (rule firstWorld_run)
          apply (rule a1)
         apply (rule n3(1))
        apply (rule a2)
       apply (rule n3(2))
      apply (rule a3)
     apply (rule n3(3))
    apply (rule ex)
    done
qed

lemma ensureCapacity_same:
  "needed \<le> capacities r t \<Longrightarrow> ensureCapacityForType r t needed = r"
  by (simp add: ensureCapacityForType_def)

lemma ensureCapacity_grow:
  assumes "capacities r t < needed"
  shows "capacities (ensureCapacityForType r t needed) t = max needed (max 8 (capacities r t * 2))"
    and "\<exists>m'. meshes (ensureCapacityForType r t needed) t = Some m' \<and>
           length (instanceMatrix m') = max needed (max 8 (capacities r t * 2)) \<and>
           (meshes r t = None \<longrightarrow>
              instanceMatrix m' = replicate (max needed (max 8 (capacities r t * 2))) ZeroMatrix \<and>
              drawCount m' = 0) \<and>
           (\<forall>om. meshes r t = Some om \<longrightarrow> drawCount m' = counts r t \<and>
              (\<forall>i. i < counts r t \<longrightarrow> i < length (instanceMatrix om) \<longrightarrow>
                   i < max needed (max 8 (capacities r t * 2)) \<longrightarrow>
                   instanceMatrix m' ! i = instanceMatrix om ! i))"
  using assms
  by (auto simp: ensureCapacityForType_def Let_def createInstancedMesh_def copyMatrices_nth
        getMatrixAt_def split: option.splits)

text \<open>
  C5 (capacity growth). If the count required does not exceed the capacity,
  \<open>ensureCapacityForType\<close> returns the record as it is. Otherwise the record
  afterwards holds, for that material, a new store of size
  \<open>max(needed, max(8, 2 * capacity))\<close>, which replaces the old one, and the
  capacity recorded is that size. When there was an old store, every slot below the
  active count that the old store has (all of them, when the count is within the
  capacity and the store has the size of the capacity) holds in the new store the
  matrix it held in the old one, at the same index, and the draw count is the active
  count; when there was none, the new store is empty. Occupancy, index maps, counts
  and the other material are untouched.
\<close>

theorem capacity_growth:
  "(needed \<le> capacities r t \<longrightarrow> ensureCapacityForType r t needed = r) \<and>
   (capacities r t < needed \<longrightarrow>
      capacities (ensureCapacityForType r t needed) t = max needed (max 8 (2 * capacities r t)) \<and>
      (\<exists>m'. meshes (ensureCapacityForType r t needed) t = Some m' \<and>
           length (instanceMatrix m') = max needed (max 8 (2 * capacities r t)) \<and>
           (meshes r t = None \<longrightarrow>
              instanceMatrix m' = replicate (max needed (max 8 (2 * capacities r t))) ZeroMatrix \<and>
              drawCount m' = 0) \<and>
           (\<forall>om. meshes r t = Some om \<longrightarrow> drawCount m' = counts r t \<and>
              (\<forall>i. i < counts r t \<longrightarrow> i < length (instanceMatrix om) \<longrightarrow>
                   i < max needed (max 8 (2 * capacities r t)) \<longrightarrow>
                   instanceMatrix m' ! i = instanceMatrix om ! i))) \<and>
      occupancy (ensureCapacityForType r t needed) = occupancy r \<and>
      indexMaps (ensureCapacityForType r t needed) = indexMaps r \<and>
      cellsByIndex (ensureCapacityForType r t needed) = cellsByIndex r \<and>
      counts (ensureCapacityForType r t needed) = counts r \<and>
      (\<forall>t'. t' \<noteq> t \<longrightarrow> meshes (ensureCapacityForType r t needed) t' = meshes r t' \<and>
            capacities (ensureCapacityForType r t needed) t' = capacities r t'))"
proof (intro conjI impI)
  assume "needed \<le> capacities r t"
  then show "ensureCapacityForType r t needed = r" by (rule ensureCapacity_same)
next
  assume a: "capacities r t < needed"
  show "capacities (ensureCapacityForType r t needed) t = max needed (max 8 (2 * capacities r t))"
    using ensureCapacity_grow(1)[OF a] by (simp add: mult.commute)
  show "\<exists>m'. meshes (ensureCapacityForType r t needed) t = Some m' \<and>
           length (instanceMatrix m') = max needed (max 8 (2 * capacities r t)) \<and>
           (meshes r t = None \<longrightarrow>
              instanceMatrix m' = replicate (max needed (max 8 (2 * capacities r t))) ZeroMatrix \<and>
              drawCount m' = 0) \<and>
           (\<forall>om. meshes r t = Some om \<longrightarrow> drawCount m' = counts r t \<and>
              (\<forall>i. i < counts r t \<longrightarrow> i < length (instanceMatrix om) \<longrightarrow>
                   i < max needed (max 8 (2 * capacities r t)) \<longrightarrow>
                   instanceMatrix m' ! i = instanceMatrix om ! i))"
    using ensureCapacity_grow(2)[OF a] by (simp add: mult.commute)
qed simp_all

theorem capacity_growth_witness:
  "capacities oneBlockRecord Brown < 9 \<and> meshes oneBlockRecord Brown \<noteq> None \<and>
   capacities (ensureCapacityForType oneBlockRecord Brown 9) Brown = 16 \<and>
   (\<exists>m'. meshes (ensureCapacityForType oneBlockRecord Brown 9) Brown = Some m' \<and>
      length (instanceMatrix m') = 16 \<and> drawCount m' = 1 \<and>
      instanceMatrix m' ! 0 = Translation (1/2) (7/2) (1/2)) \<and>
   8 \<le> capacities oneBlockRecord Brown \<and>
   ensureCapacityForType oneBlockRecord Brown 8 = oneBlockRecord"
proof -
  have c: "capacities oneBlockRecord Brown = 8" "counts oneBlockRecord Brown = 1"
    and m: "meshes oneBlockRecord Brown =
      Some \<lparr>instanceMatrix = Translation (1/2) (7/2) (1/2) # replicate 7 ZeroMatrix, drawCount = 1\<rparr>"
    by (simp_all add: oneBlockRecord_def)
  note T = capacity_growth[of 9 oneBlockRecord Brown]
  have lt: "capacities oneBlockRecord Brown < 9" by (simp add: c)
  note G = T[THEN conjunct2, rule_format, OF lt]
  from G[THEN conjunct2, THEN conjunct1] obtain m' where
    m': "meshes (ensureCapacityForType oneBlockRecord Brown 9) Brown = Some m'"
      "length (instanceMatrix m') = max 9 (max 8 (2 * capacities oneBlockRecord Brown))"
    and old: "\<forall>om. meshes oneBlockRecord Brown = Some om \<longrightarrow> drawCount m' = counts oneBlockRecord Brown \<and>
              (\<forall>i. i < counts oneBlockRecord Brown \<longrightarrow> i < length (instanceMatrix om) \<longrightarrow>
                   i < max 9 (max 8 (2 * capacities oneBlockRecord Brown)) \<longrightarrow>
                   instanceMatrix m' ! i = instanceMatrix om ! i)"
    by (elim exE conjE) (rule that)
  note O = old[rule_format, OF m]
  have d: "drawCount m' = 1"
    using O[THEN conjunct1] by (simp add: c)
  have n0: "instanceMatrix m' ! 0 = Translation (1/2) (7/2) (1/2)"
    using O[THEN conjunct2, rule_format, of 0] by (simp add: c)
  have ex: "\<exists>m'. meshes (ensureCapacityForType oneBlockRecord Brown 9) Brown = Some m' \<and>
      length (instanceMatrix m') = 16 \<and> drawCount m' = 1 \<and>
      instanceMatrix m' ! 0 = Translation (1/2) (7/2) (1/2)"
    using m' d n0 by (intro exI[of _ m']) (simp add: c)
  have cap: "capacities (ensureCapacityForType oneBlockRecord Brown 9) Brown = 16"
    using G[THEN conjunct1] by (simp add: c)
  have le: "8 \<le> capacities oneBlockRecord Brown" by (simp add: c)
  have s8: "ensureCapacityForType oneBlockRecord Brown 8 = oneBlockRecord"
    using capacity_growth[of 8 oneBlockRecord Brown, THEN conjunct1, rule_format, OF le] .
  show ?thesis
    using lt m ex cap le s8 by simp
qed

lemma addBlockAt_noop:
  "map_of (chunks w) (getChunkKey x y z) = None \<or>
   (\<exists>rec. map_of (chunks w) (getChunkKey x y z) = Some rec \<and> occupancy rec (getCellKey x y z) \<noteq> None)
   \<Longrightarrow> addBlockAt x y z type w = Inr (Undefined, w)"
  by (auto simp: addBlockAt_def Let_def)

lemma removeBlockAt_noop:
  "map_of (chunks w) (getChunkKey x y z) = None \<or>
   (\<exists>rec. map_of (chunks w) (getChunkKey x y z) = Some rec \<and> occupancy rec (getCellKey x y z) = None)
   \<Longrightarrow> removeBlockAt x y z w = Inr (Undefined, w)"
  by (auto simp: removeBlockAt_def Let_def)

lemma addBlockAt_returns: "addBlockAt x y z type w = Inr (v, w') \<Longrightarrow> v = Undefined"
  by (auto simp: addBlockAt_def Let_def split: option.splits sum.splits if_splits)

lemma removeBlockAt_returns: "removeBlockAt x y z w = Inr (v, w') \<Longrightarrow> v = Undefined"
  by (auto simp: removeBlockAt_def Let_def split: option.splits sum.splits if_splits)

lemma placedWorld_differs: "placedWorld \<noteq> firstWorld"
proof
  assume eq: "placedWorld = firstWorld"
  from firstRecord obtain r where
    r: "map_of (chunks firstWorld) (Key 0 0 0) = Some r" "occupancy r (Key 0 3 0) = None"
    by blast
  from placedWorld_facts(3) obtain r' where
    r': "map_of (chunks placedWorld) (Key 0 0 0) = Some r'" "occupancy r' (Key 0 3 0) = Some Brown"
    by blast
  from r r' eq show False by simp
qed

lemma removedWorld_differs: "removedWorld \<noteq> placedWorld"
proof
  assume eq: "removedWorld = placedWorld"
  from removedWorld_facts(3) obtain r where
    r: "map_of (chunks removedWorld) (Key 0 0 0) = Some r" "occupancy r (Key 0 3 0) = None"
    by blast
  from placedWorld_facts(3) obtain r' where
    r': "map_of (chunks placedWorld) (Key 0 0 0) = Some r'" "occupancy r' (Key 0 3 0) = Some Brown"
    by blast
  from r r' eq show False by simp
qed

lemma firstWorld_occupied:
  "\<exists>rec. map_of (chunks firstWorld) (getChunkKey (1/2) (1/2) (1/2)) = Some rec \<and>
         occupancy rec (getCellKey (1/2) (1/2) (1/2)) \<noteq> None"
  using firstRecord by auto

lemma firstWorld_free:
  "\<exists>rec. map_of (chunks firstWorld) (getChunkKey (1/2) (7/2) (1/2)) = Some rec \<and>
         occupancy rec (getCellKey (1/2) (7/2) (1/2)) = None"
  using firstRecord by auto

text \<open>
  C7, as the specification states it, fails on the code: a call that does nothing and
  a call that succeeds return the same value, \<open>undefined\<close>, so nothing that is
  returned indicates the failure. Placing on the occupied cell \<open>(0,0,0)\<close> leaves
  the world as it is, placing on the free cell \<open>(0,3,0)\<close> changes it, and both
  return \<open>undefined\<close>; so do destroying at the free cell and destroying the
  block just placed.
\<close>

theorem edit_no_failure_indicator:
  "addBlockAt (1/2) (1/2) (1/2) Brown firstWorld = Inr (Undefined, firstWorld) \<and>
   addBlockAt (1/2) (7/2) (1/2) Brown firstWorld = Inr (Undefined, placedWorld) \<and>
   placedWorld \<noteq> firstWorld \<and>
   removeBlockAt (1/2) (7/2) (1/2) firstWorld = Inr (Undefined, firstWorld) \<and>
   removeBlockAt (1/2) (7/2) (1/2) placedWorld = Inr (Undefined, removedWorld) \<and>
   removedWorld \<noteq> placedWorld"
proof (intro conjI)
  show "addBlockAt (1/2) (1/2) (1/2) Brown firstWorld = Inr (Undefined, firstWorld)"
    by (rule addBlockAt_noop[OF disjI2[OF firstWorld_occupied]])
  show "removeBlockAt (1/2) (7/2) (1/2) firstWorld = Inr (Undefined, firstWorld)"
    by (rule removeBlockAt_noop[OF disjI2[OF firstWorld_free]])
qed (rule placedWorld_facts(1) placedWorld_differs removedWorld_facts(1) removedWorld_differs)+

text \<open>
  C7, amended. \<open>addBlockAt\<close> for a cell whose chunk is not resident or that is
  occupied, and \<open>removeBlockAt\<close> for a cell whose chunk is not resident or that
  is not occupied, return (they raise nothing) and leave the whole state, chunk
  records and \<open>chunkData\<close>, exactly as it was; what they return is
  \<open>undefined\<close>, which is also what every other call of the two functions
  returns.
\<close>

theorem edit_noop_unchanged:
  "((map_of (chunks w) (getChunkKey x y z) = None \<or>
     (\<exists>rec. map_of (chunks w) (getChunkKey x y z) = Some rec \<and>
            occupancy rec (getCellKey x y z) \<noteq> None)) \<longrightarrow>
      addBlockAt x y z type w = Inr (Undefined, w)) \<and>
   ((map_of (chunks w) (getChunkKey x y z) = None \<or>
     (\<exists>rec. map_of (chunks w) (getChunkKey x y z) = Some rec \<and>
            occupancy rec (getCellKey x y z) = None)) \<longrightarrow>
      removeBlockAt x y z w = Inr (Undefined, w)) \<and>
   (\<forall>v w'. addBlockAt x y z type w = Inr (v, w') \<longrightarrow> v = Undefined) \<and>
   (\<forall>v w'. removeBlockAt x y z w = Inr (v, w') \<longrightarrow> v = Undefined)"
  using addBlockAt_noop[of w x y z type] removeBlockAt_noop[of w x y z]
    addBlockAt_returns[of x y z type w] removeBlockAt_returns[of x y z w]
  by blast

theorem edit_noop_unchanged_witness:
  "map_of (chunks firstWorld) (getChunkKey (1/2) (33/2) (1/2)) = None \<and>
   addBlockAt (1/2) (33/2) (1/2) Brown firstWorld = Inr (Undefined, firstWorld) \<and>
   removeBlockAt (1/2) (33/2) (1/2) firstWorld = Inr (Undefined, firstWorld) \<and>
   addBlockAt (1/2) (7/2) (1/2) Brown firstWorld = Inr (Undefined, placedWorld)"
proof -
  have k: "getChunkKey (1/2) (33/2) (1/2) = Key 0 1 0"
    by (simp add: getChunkKey_def CHUNK_SIZE_def)
  have "Key 0 1 0 \<notin> neighbourhood 0 0"
    by (simp add: neighbourhood_def)
  moreover have "dom (map_of (chunks firstWorld)) = neighbourhood 0 0"
    using updateChunks_effect[of 0 0 initialWorld] by (simp add: firstWorld_run)
  ultimately have "Key 0 1 0 \<notin> dom (map_of (chunks firstWorld))"
    by simp
  then have "map_of (chunks firstWorld) (Key 0 1 0) = None"
    by (simp add: domIff)
  then have n: "map_of (chunks firstWorld) (getChunkKey (1/2) (33/2) (1/2)) = None"
    by (simp only: k)
  note T = edit_noop_unchanged[of firstWorld "1/2" "33/2" "1/2" Brown]
  have a: "addBlockAt (1/2) (33/2) (1/2) Brown firstWorld = Inr (Undefined, firstWorld)"
    using T[THEN conjunct1, rule_format, OF disjI1[OF n]] .
  have b: "removeBlockAt (1/2) (33/2) (1/2) firstWorld = Inr (Undefined, firstWorld)"
    using T[THEN conjunct2, THEN conjunct1, rule_format, OF disjI1[OF n]] .
  from n a b placedWorld_facts(1) show ?thesis by simp
qed

lemma resident_keyY:
  "reachable w \<Longrightarrow> map_of (chunks w) k = Some r \<Longrightarrow> keyY k = 0"
  using world_okD(1)[OF reachable_world_ok, of w k r] by (simp add: chunk_ok_def)

lemma floor_div16_nonzero: "(y < 0 \<or> 16 \<le> y) = (\<lfloor>y / real_of_int CHUNK_SIZE\<rfloor> \<noteq> 0)" for y :: real
proof -
  have "(\<lfloor>y / 16\<rfloor> = 0) = (0 \<le> y \<and> y < 16)"
    by (simp add: floor_eq_iff)
  then show ?thesis by (auto simp: CHUNK_SIZE_def)
qed

text \<open>
  C9 (implicit vertical edit range). In every state the program reaches, every
  resident chunk has the key's y-coordinate 0. So for coordinates with
  \<open>y < 0\<close> or \<open>y \<ge> 16\<close>, which are those with
  \<open>floor(y / CHUNK_SIZE) \<noteq> 0\<close>, the chunk key the edit computes is not
  resident, and \<open>addBlockAt\<close> and \<open>removeBlockAt\<close> return with the state
  unchanged.
\<close>

theorem vertical_edit_range:
  assumes "reachable w" and "y < 0 \<or> 16 \<le> y"
  shows "\<lfloor>y / real_of_int CHUNK_SIZE\<rfloor> \<noteq> 0 \<and>
         (\<forall>k r. map_of (chunks w) k = Some r \<longrightarrow> keyY k = 0) \<and>
         map_of (chunks w) (getChunkKey x y z) = None \<and>
         addBlockAt x y z type w = Inr (Undefined, w) \<and>
         removeBlockAt x y z w = Inr (Undefined, w)"
proof -
  have f: "\<lfloor>y / real_of_int CHUNK_SIZE\<rfloor> \<noteq> 0"
    using assms(2) by (simp add: floor_div16_nonzero)
  have ky: "\<forall>k r. map_of (chunks w) k = Some r \<longrightarrow> keyY k = 0"
    using resident_keyY[OF assms(1)] by blast
  have "keyY (getChunkKey x y z) \<noteq> 0"
    using f by (simp add: getChunkKey_def)
  with ky have n: "map_of (chunks w) (getChunkKey x y z) = None"
    by (cases "map_of (chunks w) (getChunkKey x y z)") auto
  from f ky n addBlockAt_noop[OF disjI1[OF n]] removeBlockAt_noop[OF disjI1[OF n]]
  show ?thesis by simp
qed

theorem vertical_edit_range_witness:
  "reachable placedWorld \<and> ((33/2 :: real) < 0 \<or> 16 \<le> (33/2 :: real)) \<and>
   addBlockAt (1/2) (33/2) (1/2) Brown placedWorld = Inr (Undefined, placedWorld) \<and>
   removeBlockAt (1/2) (33/2) (1/2) placedWorld = Inr (Undefined, placedWorld) \<and>
   ((-1/2 :: real) < 0 \<or> 16 \<le> (-1/2 :: real)) \<and>
   addBlockAt (1/2) (-1/2) (1/2) Brown placedWorld = Inr (Undefined, placedWorld)"
proof -
  have h1: "(33/2 :: real) < 0 \<or> 16 \<le> (33/2 :: real)" by simp
  have h2: "(-1/2 :: real) < 0 \<or> 16 \<le> (-1/2 :: real)" by simp
  from vertical_edit_range[OF placedWorld_facts(2) h1, of "1/2" "1/2" Brown]
    vertical_edit_range[OF placedWorld_facts(2) h2, of "1/2" "1/2" Brown]
    placedWorld_facts(2) h1 h2
  show ?thesis by simp
qed

lemma snapped_fix: "snapped v \<Longrightarrow> snapToGrid v = v"
  by (simp add: snapped_def)

text \<open>
  C8, as the specification states it, fails on the code: a block that sits in the
  last active slot of its material's batch gets the same slot back when it is removed
  and a block of the same material is added at the same cell. The block placed at the
  cell \<open>(0,3,0)\<close> is in slot 0 of the batch of placed blocks; it is removed and
  placed again, and is in slot 0 again.
\<close>

theorem readd_same_slot:
  "reachable placedWorld \<and>
   map_of (chunks placedWorld) (Key 0 0 0) = Some (recordAt placedWorld (Key 0 0 0)) \<and>
   occupancy (recordAt placedWorld (Key 0 0 0)) (Key 0 3 0) = Some Brown \<and>
   indexMaps (recordAt placedWorld (Key 0 0 0)) Brown (Key 0 3 0) = Some 0 \<and>
   removeBlockAt (1/2) (7/2) (1/2) placedWorld = Inr (Undefined, removedWorld) \<and>
   addBlockAt (1/2) (7/2) (1/2) Brown removedWorld = Inr (Undefined, replacedWorld) \<and>
   map_of (chunks replacedWorld) (Key 0 0 0) = Some (recordAt replacedWorld (Key 0 0 0)) \<and>
   occupancy (recordAt replacedWorld (Key 0 0 0)) (Key 0 3 0) = Some Brown \<and>
   indexMaps (recordAt replacedWorld (Key 0 0 0)) Brown (Key 0 3 0) = Some 0"
proof -
  from placedWorld_facts(3) obtain r where
    r: "map_of (chunks placedWorld) (Key 0 0 0) = Some r" "indexMaps r Brown (Key 0 3 0) = Some 0"
      "occupancy r (Key 0 3 0) = Some Brown"
    by blast
  from replacedWorld_facts(3) obtain r' where
    r': "map_of (chunks replacedWorld) (Key 0 0 0) = Some r'"
      "indexMaps r' Brown (Key 0 3 0) = Some 0" "occupancy r' (Key 0 3 0) = Some Brown"
    by blast
  have eq: "recordAt placedWorld (Key 0 0 0) = r" "recordAt replacedWorld (Key 0 0 0) = r'"
    using r(1) r'(1) by (simp_all add: recordAt_eq)
  show ?thesis
    unfolding eq
    using r r' placedWorld_facts(2) removedWorld_facts(1) replacedWorld_facts(1) by simp
qed

text \<open>
  C8, amended. In every state the program reaches, for every resident chunk and
  every occupied cell (given by snapped coordinates): removing the block and then
  adding a block of any material at the same cell both succeed; afterwards the
  occupancy maps the cell to the material given, and the cell's slot is the first
  free slot of that material's batch after the removal: the batch's last active
  index before the removal when the material is the one removed, and the batch's
  active count when it is the other one. With the same material the slot therefore
  differs from the original slot exactly when the cell was not in the last active
  slot.
\<close>

theorem readd_slot:
  assumes rw: "reachable w"
    and res: "map_of (chunks w) (getChunkKey x y z) = Some r"
    and occ: "occupancy r (getCellKey x y z) = Some t0"
    and snap: "snapped x" "snapped y" "snapped z"
  shows "\<exists>i0 w1 r1 w2 r2.
           indexMaps r t0 (getCellKey x y z) = Some i0 \<and> i0 < counts r t0 \<and>
           removeBlockAt x y z w = Inr (Undefined, w1) \<and>
           map_of (chunks w1) (getChunkKey x y z) = Some r1 \<and>
           addBlockAt x y z t w1 = Inr (Undefined, w2) \<and>
           map_of (chunks w2) (getChunkKey x y z) = Some r2 \<and>
           occupancy r2 (getCellKey x y z) = Some t \<and>
           indexMaps r2 t (getCellKey x y z) =
             Some (if t = t0 then counts r t0 - 1 else counts r t)"
proof -
  let ?k = "getChunkKey x y z"
  let ?ck = "getCellKey x y z"
  have ok: "batch_ok r t0"
    by (rule resident_batch_ok[OF rw res])
  from removeBlockAt_simple[OF res occ ok] obtain w1 r1 i0 where
    rm: "removeBlockAt x y z w = Inr (Undefined, w1)"
    and i0: "indexMaps r t0 ?ck = Some i0"
    and r1: "map_of (chunks w1) ?k = Some r1"
    and o1: "occupancy r1 = (occupancy r)(?ck := None)"
    and c1: "Suc (counts r1 t0) = counts r t0"
    and c1': "\<forall>t'. t' \<noteq> t0 \<longrightarrow> counts r1 t' = counts r t'"
    by (elim exE conjE) (rule that)
  have il: "i0 < counts r t0"
    using slots_okD(4)[OF batch_okD(1)[OF ok] i0] by simp
  have "removeBlockAt (snapToGrid x) (snapToGrid y) (snapToGrid z) w = Inr (Undefined, w1)"
    using rm snap by (simp add: snapped_fix)
  with rw have rw1: "reachable w1"
    by (rule reachable.destroy)
  have ok1: "batch_ok r1 t"
    by (rule resident_batch_ok[OF rw1 r1])
  have free: "occupancy r1 ?ck = None"
    by (simp add: o1)
  from addBlockAt_simple[OF r1 free ok1 snap] obtain w2 r2 where
    ad: "addBlockAt x y z t w1 = Inr (Undefined, w2)"
    and r2: "map_of (chunks w2) ?k = Some r2"
    and o2: "occupancy r2 = (occupancy r1)(?ck \<mapsto> t)"
    and x2: "indexMaps r2 t = (indexMaps r1 t)(?ck \<mapsto> counts r1 t)"
    by (elim exE conjE) (rule that)
  have cnt: "counts r1 t = (if t = t0 then counts r t0 - 1 else counts r t)"
    using c1 c1' by auto
  have occ2: "occupancy r2 ?ck = Some t"
    by (simp add: o2)
  have idx2: "indexMaps r2 t ?ck = Some (if t = t0 then counts r t0 - 1 else counts r t)"
    unfolding x2 cnt by simp
  show ?thesis
    apply (rule exI[of _ i0])
    apply (rule exI[of _ w1])
    apply (rule exI[of _ r1])
    apply (rule exI[of _ w2])
    apply (rule exI[of _ r2])
    apply (intro conjI)
           apply (rule i0)
          apply (rule il)
         apply (rule rm)
        apply (rule r1)
       apply (rule ad)
      apply (rule r2)
     apply (rule occ2)
    apply (rule idx2)
    done
qed

text \<open>
  A ground block of the generated chunk, removed and replaced by a placed block:
  the new slot is slot 0 of the batch of placed blocks, which was empty.
\<close>

theorem readd_slot_witness:
  "reachable firstWorld \<and>
   map_of (chunks firstWorld) (getChunkKey (1/2) (1/2) (1/2)) = Some (recordAt firstWorld (Key 0 0 0)) \<and>
   occupancy (recordAt firstWorld (Key 0 0 0)) (getCellKey (1/2) (1/2) (1/2)) = Some Green \<and>
   snapped (1/2) \<and>
   (\<exists>i0 w1 r1 w2 r2.
      indexMaps (recordAt firstWorld (Key 0 0 0)) Green (Key 0 0 0) = Some i0 \<and>
      i0 < counts (recordAt firstWorld (Key 0 0 0)) Green \<and>
      removeBlockAt (1/2) (1/2) (1/2) firstWorld = Inr (Undefined, w1) \<and>
      map_of (chunks w1) (Key 0 0 0) = Some r1 \<and>
      addBlockAt (1/2) (1/2) (1/2) Brown w1 = Inr (Undefined, w2) \<and>
      map_of (chunks w2) (Key 0 0 0) = Some r2 \<and>
      occupancy r2 (Key 0 0 0) = Some Brown \<and>
      indexMaps r2 Brown (Key 0 0 0) = Some 0)"
proof -
  from firstRecord obtain r where
    r: "map_of (chunks firstWorld) (Key 0 0 0) = Some r" "occupancy r (Key 0 0 0) = Some Green"
      "counts r Brown = 0"
    by blast
  have eq: "recordAt firstWorld (Key 0 0 0) = r"
    by (rule recordAt_eq[OF r(1)])
  have res: "map_of (chunks firstWorld) (getChunkKey (1/2) (1/2) (1/2)) = Some r"
    using r(1) by simp
  have occ: "occupancy r (getCellKey (1/2) (1/2) (1/2)) = Some Green"
    using r(2) by simp
  have s: "snapped (1/2)" by simp
  note T = readd_slot[OF firstWorld_reachable res occ s s s, of Brown]
  have ex: "\<exists>i0 w1 r1 w2 r2.
      indexMaps r Green (Key 0 0 0) = Some i0 \<and>
      i0 < counts r Green \<and>
      removeBlockAt (1/2) (1/2) (1/2) firstWorld = Inr (Undefined, w1) \<and>
      map_of (chunks w1) (Key 0 0 0) = Some r1 \<and>
      addBlockAt (1/2) (1/2) (1/2) Brown w1 = Inr (Undefined, w2) \<and>
      map_of (chunks w2) (Key 0 0 0) = Some r2 \<and>
      occupancy r2 (Key 0 0 0) = Some Brown \<and>
      indexMaps r2 Brown (Key 0 0 0) = Some 0"
    using T by (simp add: r(3))
  show ?thesis
    unfolding eq
    apply (intro conjI)
        apply (rule firstWorld_reachable)
       apply (rule res)
      apply (rule occ)
     apply (rule s)
    apply (rule ex)
    done
qed

section \<open>The claims about the collision pass\<close>

subsection \<open>the two example capsules\<close>

lemma vlength_axis: "vlength (Vec 0 b 0) = \<bar>b\<bar>"
  by simp

lemma samplePoint_first [simp]: "samplePoint a e 0 = a"
  by (simp add: samplePoint_def)

lemma ground_cell:
  "getChunkRecordAtCell (chunks firstWorld) 0 0 0 = Some (recordAt firstWorld (Key 0 0 0))"
  "getCellKey (real_of_int 0) (real_of_int 0) (real_of_int 0) = Key 0 0 0"
  "occupancy (recordAt firstWorld (Key 0 0 0)) (Key 0 0 0) = Some Green"
proof -
  from firstRecord obtain r where
    r: "map_of (chunks firstWorld) (Key 0 0 0) = Some r" "occupancy r (Key 0 0 0) = Some Green"
    by blast
  have k: "getChunkKey 0 0 0 = Key 0 0 0"
    by (simp add: getChunkKey_def)
  show "getChunkRecordAtCell (chunks firstWorld) 0 0 0 = Some (recordAt firstWorld (Key 0 0 0))"
    using r(1) by (simp add: getChunkRecordAtCell_def k recordAt_def)
  show "getCellKey (real_of_int 0) (real_of_int 0) (real_of_int 0) = Key 0 0 0"
    by (simp add: getCellKey_def)
  show "occupancy (recordAt firstWorld (Key 0 0 0)) (Key 0 0 0) = Some Green"
    using r by (simp add: recordAt_def)
qed

lemma placed_cell:
  "getChunkRecordAtCell (chunks placedWorld) 0 3 0 = Some (recordAt placedWorld (Key 0 0 0))"
  "getCellKey (real_of_int 0) (real_of_int 3) (real_of_int 0) = Key 0 3 0"
  "occupancy (recordAt placedWorld (Key 0 0 0)) (Key 0 3 0) = Some Brown"
proof -
  from placedWorld_facts(3) obtain r where
    r: "map_of (chunks placedWorld) (Key 0 0 0) = Some r" "occupancy r (Key 0 3 0) = Some Brown"
    by blast
  have k: "getChunkKey 0 3 0 = Key 0 0 0"
    by (simp add: getChunkKey_def CHUNK_SIZE_def)
  show "getChunkRecordAtCell (chunks placedWorld) 0 3 0 = Some (recordAt placedWorld (Key 0 0 0))"
    using r(1) by (simp add: getChunkRecordAtCell_def k recordAt_def)
  show "getCellKey (real_of_int 0) (real_of_int 3) (real_of_int 0) = Key 0 3 0"
    by (simp add: getCellKey_def)
  show "occupancy (recordAt placedWorld (Key 0 0 0)) (Key 0 3 0) = Some Brown"
    using r by (simp add: recordAt_def)
qed

lemma jumping_sample:
  "samplePoint (Vec (1/2) (3/2) (1/2)) (Vec (1/2) (11/4) (1/2)) i = Vec (1/2) (3/2 + real i / 4) (1/2)"
  by (simp add: samplePoint_def steps_def vnormalize_def vlength_axis del: vlength.simps)

lemma jumping_closest:
  "i \<le> 5 \<Longrightarrow> closestPoint (0, 3, 0) (Vec (1/2) (3/2 + real i / 4) (1/2)) = Vec (1/2) 3 (1/2)"
  by (simp add: closestPoint_def cubeMin_def cubeMax_def)

lemma jumping_dist:
  "i \<le> 5 \<Longrightarrow>
   sampleDist (0, 3, 0) (Vec (1/2) (3/2) (1/2)) (Vec (1/2) (11/4) (1/2)) i = 3/2 - real i / 4"
  by (simp add: sampleDist_def jumping_sample jumping_closest vlength_axis del: vlength.simps)

lemma jumping_first:
  "\<forall>j. j < 5 \<longrightarrow>
     \<not> sampleDist (0, 3, 0) (Vec (1/2) (3/2) (1/2)) (Vec (1/2) (11/4) (1/2)) j < 35/100"
  by (simp add: jumping_dist)

lemma jumping_push:
  "vscale (vnormalize (vsub (Vec (1/2) (11/4) (1/2)) (Vec (1/2) 3 (1/2)))) (35/100 - 1/4) =
     Vec 0 (-1/10) 0"
  "vscale (vnormalize (vsub (Vec (1/2) 3 (1/2)) (Vec (1/2) (11/4) (1/2)))) (35/100 - 1/4) =
     Vec 0 (1/10) 0"
  by (simp_all add: vnormalize_def vlength_axis del: vlength.simps)

lemma sunk_geometry:
  "closestPoint (0, 0, 0) (Vec (1/2) (3/4) (1/2)) = Vec (1/2) (3/4) (1/2)"
  by (simp_all add: closestPoint_def cubeMin_def cubeMax_def)

lemma example_stores [simp]:
  "vecs jumpingStore ColliderStart = Vec (1/2) (3/2) (1/2)"
  "vecs jumpingStore ColliderEnd = Vec (1/2) (11/4) (1/2)"
  "vecs jumpingStore Velocity = Vec 1 1 0"
  "vecs sunkStore ColliderStart = Vec (1/2) (3/4) (1/2)"
  "vecs sunkStore ColliderEnd = Vec (1/2) 2 (1/2)"
  "vecs sunkStore Velocity = Vec 0 (-1) 0"
  by (simp_all add: jumpingStore_def sunkStore_def)

lemma jumping_hit:
  "samplePoint (Vec (1/2) (3/2) (1/2)) (Vec (1/2) (11/4) (1/2)) 5 = Vec (1/2) (11/4) (1/2)"
  "closestPoint (0, 3, 0) (Vec (1/2) (11/4) (1/2)) = Vec (1/2) 3 (1/2)"
  "sampleDist (0, 3, 0) (Vec (1/2) (3/2) (1/2)) (Vec (1/2) (11/4) (1/2)) 5 = 1/4"
  "vlength (vsub (Vec (1/2) 3 (1/2)) (Vec (1/2) (11/4) (1/2))) = 1/4"
  using jumping_closest[of 5]
  by (simp_all add: jumping_sample jumping_dist vlength_axis del: vlength.simps)

subsection \<open>what one cell of the pass does\<close>

lemma cell_correction:
  assumes st: "vecs s ColliderStart = a" "vecs s ColliderEnd = e"
    and k: "k \<le> steps"
    and none: "\<forall>j. j < k \<longrightarrow> \<not> sampleDist (x, y, z) a e j < radius"
    and hit: "sampleDist (x, y, z) a e k < radius"
    and c: "c = vscale (vnormalize (vsub (samplePoint a e k) (closestPoint (x, y, z) (samplePoint a e k))))
                  (radius - sampleDist (x, y, z) a e k)"
  shows "\<exists>res s4.
           capsuleIntersectCorrection radius
             (box_setFromCenterAndSize TmpPos TmpVec
                (vec_set TmpVec 1 1 1
                   (vec_set TmpPos (real_of_int x + 1/2) (real_of_int y + 1/2) (real_of_int z + 1/2) s))) =
             (Some res, s4) \<and>
           vecs s4 (correction res) = c \<and> vecs s4 (normal res) = c"
proof -
  define s3 where "s3 = box_setFromCenterAndSize TmpPos TmpVec
                   (vec_set TmpVec 1 1 1
                      (vec_set TmpPos (real_of_int x + 1/2) (real_of_int y + 1/2) (real_of_int z + 1/2) s))"
  note b = box_setup[of x y z s, folded s3_def]
  have p: "vecs s3 ColliderStart = a" "vecs s3 ColliderEnd = e"
    using b(3,4) st by simp_all
  from capsule_hit[OF p b(1,2) k none hit, folded c] obtain s4 where
    r: "capsuleIntersectCorrection radius s3 =
          (Some \<lparr>correction = Obj (nextObj s3), normal = Obj (nextObj s3)\<rparr>, s4)"
    and val: "vecs s4 (Obj (nextObj s3)) = c"
    by (elim exE conjE) (rule that)
  show ?thesis
    unfolding s3_def[symmetric]
    apply (rule exI[of _ "\<lparr>correction = Obj (nextObj s3), normal = Obj (nextObj s3)\<rparr>"])
    apply (rule exI[of _ s4])
    using r val apply simp
    done
qed

lemma push_length:
  assumes "p \<noteq> q" "vlength (vsub q p) < radius"
  shows "vlength (vscale (vnormalize (vsub p q)) (radius - vlength (vsub q p))) =
         radius - vlength (vsub q p)"
proof -
  have "vsub p q \<noteq> Vec 0 0 0"
    using assms(1) by (simp add: vsub_zero_iff)
  then have "vlength (vnormalize (vsub p q)) = 1"
    by (rule vlength_vnormalize)
  with assms(2) show ?thesis
    by (simp add: vlength_vscale)
qed

lemma tangential_kept:
  "vdot c w = 0 \<Longrightarrow> vdot (vsub v (vscale c d)) w = vdot v w"
  by (simp add: vdot_vsub_left vdot_vscale_left)

lemma jumping_step:
  "\<exists>s'. collideCell (chunks placedWorld) capsuleRadius (0, 3, 0) ([], jumpingStore) =
            ([Key 0 3 0], s') \<and>
         vecs s' ColliderStart = Vec (1/2) (7/5) (1/2) \<and>
         vecs s' ColliderEnd = Vec (1/2) (53/20) (1/2) \<and>
         vecs s' Velocity = Vec 1 (99/100) 0"
proof -
  have fresh: "getCellKey (real_of_int 0) (real_of_int 3) (real_of_int 0) \<notin> set []"
    by simp
  have occ: "occupancy (recordAt placedWorld (Key 0 0 0))
               (getCellKey (real_of_int 0) (real_of_int 3) (real_of_int 0)) \<noteq> None"
    by (simp only: placed_cell(2,3)) simp
  have k: "5 \<le> steps" by (simp add: steps_def)
  have none: "\<forall>j. j < 5 \<longrightarrow>
     \<not> sampleDist (0, 3, 0) (Vec (1/2) (3/2) (1/2)) (Vec (1/2) (11/4) (1/2)) j < capsuleRadius"
    using jumping_first by (simp add: capsuleRadius_def)
  have hit: "sampleDist (0, 3, 0) (Vec (1/2) (3/2) (1/2)) (Vec (1/2) (11/4) (1/2)) 5 < capsuleRadius"
    by (simp add: jumping_hit(3) capsuleRadius_def)
  have c: "Vec 0 (-1/10) 0 =
           vscale (vnormalize (vsub (samplePoint (Vec (1/2) (3/2) (1/2)) (Vec (1/2) (11/4) (1/2)) 5)
                     (closestPoint (0, 3, 0)
                        (samplePoint (Vec (1/2) (3/2) (1/2)) (Vec (1/2) (11/4) (1/2)) 5))))
             (capsuleRadius - sampleDist (0, 3, 0) (Vec (1/2) (3/2) (1/2)) (Vec (1/2) (11/4) (1/2)) 5)"
    by (simp only: jumping_hit capsuleRadius_def jumping_push)
  from collideCell_hit[OF placed_cell(1) fresh occ example_stores(1,2,3) k none hit c]
  show ?thesis
    by (simp add: getCellKey_def)
qed

text \<open>
  C3, as the specification states it, fails on the code. The player jumps under the
  block placed at the cell \<open>(0, 3, 0)\<close>: the samples 0 to 4 are at least
  \<open>1/2\<close> from the cube and sample 5, the head, at \<open>(1/2, 11/4, 1/2)\<close>,
  is \<open>1/4\<close> below its closest point \<open>(1/2, 3, 1/2)\<close>, within the radius
  \<open>0.35\<close>. The vector from the sample to the closest point, normalised and
  scaled to \<open>radius - distance\<close>, is \<open>(0, 1/10, 0)\<close>, which points into
  the cube; the code moves both ends of the capsule by \<open>(0, -1/10, 0)\<close>, away
  from the cube. Nor is the velocity's component along the push direction removed:
  \<open>(1, 1, 0)\<close> becomes \<open>(1, 99/100, 0)\<close>.
\<close>

theorem push_direction_reversed:
  "getChunkRecordAtCell (chunks placedWorld) 0 3 0 = Some (recordAt placedWorld (Key 0 0 0)) \<and>
   occupancy (recordAt placedWorld (Key 0 0 0)) (Key 0 3 0) = Some Brown \<and>
   vecs jumpingStore ColliderStart = Vec (1/2) (3/2) (1/2) \<and>
   vecs jumpingStore ColliderEnd = Vec (1/2) (11/4) (1/2) \<and>
   vecs jumpingStore Velocity = Vec 1 1 0 \<and>
   capsuleRadius \<le> sampleDist (0, 3, 0) (Vec (1/2) (3/2) (1/2)) (Vec (1/2) (11/4) (1/2)) 0 \<and>
   capsuleRadius \<le> sampleDist (0, 3, 0) (Vec (1/2) (3/2) (1/2)) (Vec (1/2) (11/4) (1/2)) 1 \<and>
   capsuleRadius \<le> sampleDist (0, 3, 0) (Vec (1/2) (3/2) (1/2)) (Vec (1/2) (11/4) (1/2)) 2 \<and>
   capsuleRadius \<le> sampleDist (0, 3, 0) (Vec (1/2) (3/2) (1/2)) (Vec (1/2) (11/4) (1/2)) 3 \<and>
   capsuleRadius \<le> sampleDist (0, 3, 0) (Vec (1/2) (3/2) (1/2)) (Vec (1/2) (11/4) (1/2)) 4 \<and>
   samplePoint (Vec (1/2) (3/2) (1/2)) (Vec (1/2) (11/4) (1/2)) 5 = Vec (1/2) (11/4) (1/2) \<and>
   closestPoint (0, 3, 0) (Vec (1/2) (11/4) (1/2)) = Vec (1/2) 3 (1/2) \<and>
   sampleDist (0, 3, 0) (Vec (1/2) (3/2) (1/2)) (Vec (1/2) (11/4) (1/2)) 5 = 1/4 \<and>
   1/4 < capsuleRadius \<and>
   vscale (vnormalize (vsub (Vec (1/2) 3 (1/2)) (Vec (1/2) (11/4) (1/2)))) (capsuleRadius - 1/4) =
     Vec 0 (1/10) 0 \<and>
   vecs (snd (collideCell (chunks placedWorld) capsuleRadius (0, 3, 0) ([], jumpingStore)))
     ColliderStart = vadd (Vec (1/2) (3/2) (1/2)) (Vec 0 (-1/10) 0) \<and>
   vecs (snd (collideCell (chunks placedWorld) capsuleRadius (0, 3, 0) ([], jumpingStore)))
     ColliderEnd = vadd (Vec (1/2) (11/4) (1/2)) (Vec 0 (-1/10) 0) \<and>
   vecs (snd (collideCell (chunks placedWorld) capsuleRadius (0, 3, 0) ([], jumpingStore)))
     Velocity = Vec 1 (99/100) 0 \<and>
   vdot (Vec 1 (99/100) 0) (Vec 0 (1/10) 0) \<noteq> 0"
proof -
  from jumping_step obtain s' where
    s': "collideCell (chunks placedWorld) capsuleRadius (0, 3, 0) ([], jumpingStore) =
            ([Key 0 3 0], s')"
      "vecs s' ColliderStart = Vec (1/2) (7/5) (1/2)"
      "vecs s' ColliderEnd = Vec (1/2) (53/20) (1/2)"
      "vecs s' Velocity = Vec 1 (99/100) 0"
    by blast
  have d: "capsuleRadius \<le> sampleDist (0, 3, 0) (Vec (1/2) (3/2) (1/2)) (Vec (1/2) (11/4) (1/2)) 0"
    "capsuleRadius \<le> sampleDist (0, 3, 0) (Vec (1/2) (3/2) (1/2)) (Vec (1/2) (11/4) (1/2)) 1"
    "capsuleRadius \<le> sampleDist (0, 3, 0) (Vec (1/2) (3/2) (1/2)) (Vec (1/2) (11/4) (1/2)) 2"
    "capsuleRadius \<le> sampleDist (0, 3, 0) (Vec (1/2) (3/2) (1/2)) (Vec (1/2) (11/4) (1/2)) 3"
    "capsuleRadius \<le> sampleDist (0, 3, 0) (Vec (1/2) (3/2) (1/2)) (Vec (1/2) (11/4) (1/2)) 4"
    by (simp_all add: jumping_dist capsuleRadius_def)
  have r: "(1/4 :: real) < capsuleRadius"
    by (simp add: capsuleRadius_def)
  have v: "vscale (vnormalize (vsub (Vec (1/2) 3 (1/2)) (Vec (1/2) (11/4) (1/2)))) (capsuleRadius - 1/4) =
     Vec 0 (1/10) 0"
    by (simp only: capsuleRadius_def jumping_push)
  show ?thesis
    unfolding s'(1) snd_conv
    apply (intro conjI)
    apply (rule placed_cell(1) placed_cell(3) example_stores(1,2,3) d r v jumping_hit(1,2,3))+
    apply (simp_all add: s'(2,3,4))
    done
qed

text \<open>
  C3, amended. When the pass comes to a cell that it has not visited, that is
  occupied in its resident chunk and for which sample \<open>k\<close> is the first of the
  6 samples whose distance to its closest point \<open>q\<close> on the cell's unit cube is
  less than the radius, with \<open>p\<close> that sample: the correction vector \<open>c\<close>
  is the vector from the closest point to the sample, \<open>p - q\<close>, normalised, and
  scaled by radius minus distance, so that it points away from the cube and, when the
  sample is not at its closest point, has the length radius minus distance; the
  intersection routine returns it, both ends of the capsule are translated by it,
  and the velocity keeps its component along every direction orthogonal to
  \<open>c\<close>: the tangential velocity is unchanged.
\<close>

theorem push_out_step:
  assumes "getChunkRecordAtCell cs x y z = Some rec"
    and "getCellKey (real_of_int x) (real_of_int y) (real_of_int z) \<notin> set visited"
    and "occupancy rec (getCellKey (real_of_int x) (real_of_int y) (real_of_int z)) \<noteq> None"
    and "vecs s ColliderStart = a" and "vecs s ColliderEnd = e" and "vecs s Velocity = v"
    and "k \<le> steps"
    and "\<forall>j. j < k \<longrightarrow> \<not> sampleDist (x, y, z) a e j < radius"
    and "sampleDist (x, y, z) a e k < radius"
    and "p = samplePoint a e k" and "q = closestPoint (x, y, z) p"
    and "c = vscale (vnormalize (vsub p q)) (radius - vlength (vsub q p))"
  shows "sampleDist (x, y, z) a e k = vlength (vsub q p) \<and>
         (\<exists>res s4.
            capsuleIntersectCorrection radius
              (box_setFromCenterAndSize TmpPos TmpVec
                 (vec_set TmpVec 1 1 1
                    (vec_set TmpPos (real_of_int x + 1/2) (real_of_int y + 1/2) (real_of_int z + 1/2) s))) =
              (Some res, s4) \<and>
            vecs s4 (correction res) = c) \<and>
         fst (collideCell cs radius (x, y, z) (visited, s)) =
           getCellKey (real_of_int x) (real_of_int y) (real_of_int z) # visited \<and>
         vecs (snd (collideCell cs radius (x, y, z) (visited, s))) ColliderStart = vadd a c \<and>
         vecs (snd (collideCell cs radius (x, y, z) (visited, s))) ColliderEnd = vadd e c \<and>
         (p \<noteq> q \<longrightarrow> vlength c = radius - vlength (vsub q p)) \<and>
         (\<forall>w. vdot c w = 0 \<longrightarrow>
              vdot (vecs (snd (collideCell cs radius (x, y, z) (visited, s))) Velocity) w = vdot v w)"
proof -
  have d: "sampleDist (x, y, z) a e k = vlength (vsub q p)"
    by (simp only: sampleDist_def assms(10,11))
  have c: "c = vscale (vnormalize (vsub (samplePoint a e k) (closestPoint (x, y, z) (samplePoint a e k))))
                  (radius - sampleDist (x, y, z) a e k)"
    by (simp only: d assms(12)) (simp only: assms(10,11))
  from collideCell_hit[OF assms(1-9) c] obtain s' where
    s': "collideCell cs radius (x, y, z) (visited, s) =
           (getCellKey (real_of_int x) (real_of_int y) (real_of_int z) # visited, s')"
      "vecs s' ColliderStart = vadd a c" "vecs s' ColliderEnd = vadd e c"
      "vecs s' Velocity = vsub v (vscale c (vdot v c))"
    by (elim exE conjE) (rule that)
  from cell_correction[OF assms(4,5,7,8,9) c] have res: "\<exists>res s4.
            capsuleIntersectCorrection radius
              (box_setFromCenterAndSize TmpPos TmpVec
                 (vec_set TmpVec 1 1 1
                    (vec_set TmpPos (real_of_int x + 1/2) (real_of_int y + 1/2) (real_of_int z + 1/2) s))) =
              (Some res, s4) \<and>
            vecs s4 (correction res) = c"
    by blast
  have len: "p \<noteq> q \<longrightarrow> vlength c = radius - vlength (vsub q p)"
    using push_length[of p q radius] assms(9) by (simp add: d assms(12))
  have tan: "\<forall>w. vdot c w = 0 \<longrightarrow> vdot (vecs s' Velocity) w = vdot v w"
    by (simp add: s'(4) tangential_kept)
  show ?thesis
    unfolding s'(1) fst_conv snd_conv
    apply (intro conjI)
          apply (rule d)
         apply (rule res)
        apply (rule refl)
       apply (rule s'(2))
      apply (rule s'(3))
     apply (rule len)
    apply (rule tan)
    done
qed

text \<open>
  The jump under the placed block: the head, sample 5, is the first sample within
  the radius; the capsule is moved down by \<open>1/10\<close>, and the velocity keeps
  its component along the x-axis, which is orthogonal to the correction.
\<close>

theorem push_out_step_witness:
  "getChunkRecordAtCell (chunks placedWorld) 0 3 0 = Some (recordAt placedWorld (Key 0 0 0)) \<and>
   occupancy (recordAt placedWorld (Key 0 0 0)) (Key 0 3 0) = Some Brown \<and>
   (5 :: nat) \<le> steps \<and>
   capsuleRadius \<le> sampleDist (0, 3, 0) (Vec (1/2) (3/2) (1/2)) (Vec (1/2) (11/4) (1/2)) 4 \<and>
   sampleDist (0, 3, 0) (Vec (1/2) (3/2) (1/2)) (Vec (1/2) (11/4) (1/2)) 5 < capsuleRadius \<and>
   fst (collideCell (chunks placedWorld) capsuleRadius (0, 3, 0) ([], jumpingStore)) = [Key 0 3 0] \<and>
   vecs (snd (collideCell (chunks placedWorld) capsuleRadius (0, 3, 0) ([], jumpingStore)))
     ColliderStart = Vec (1/2) (7/5) (1/2) \<and>
   vecs (snd (collideCell (chunks placedWorld) capsuleRadius (0, 3, 0) ([], jumpingStore)))
     ColliderEnd = Vec (1/2) (53/20) (1/2) \<and>
   vlength (Vec 0 (-1/10) 0) = capsuleRadius - 1/4 \<and>
   vdot (Vec 0 (-1/10) 0) (Vec 1 0 0) = 0 \<and>
   vdot (vecs (snd (collideCell (chunks placedWorld) capsuleRadius (0, 3, 0) ([], jumpingStore)))
           Velocity) (Vec 1 0 0) = 1"
proof -
  let ?A = "Vec (1/2) (3/2) (1/2)" and ?E = "Vec (1/2) (11/4) (1/2)"
  have fresh: "getCellKey (real_of_int 0) (real_of_int 3) (real_of_int 0) \<notin> set []"
    by simp
  have occ: "occupancy (recordAt placedWorld (Key 0 0 0))
               (getCellKey (real_of_int 0) (real_of_int 3) (real_of_int 0)) \<noteq> None"
    by (simp only: placed_cell(2,3)) simp
  have k: "5 \<le> steps" by (simp add: steps_def)
  have none: "\<forall>j. j < 5 \<longrightarrow> \<not> sampleDist (0, 3, 0) ?A ?E j < capsuleRadius"
    using jumping_first by (simp add: capsuleRadius_def)
  have d4: "capsuleRadius \<le> sampleDist (0, 3, 0) ?A ?E 4"
    by (simp add: jumping_dist capsuleRadius_def)
  have hit: "sampleDist (0, 3, 0) ?A ?E 5 < capsuleRadius"
    by (simp add: jumping_hit(3) capsuleRadius_def)
  have c: "vscale (vnormalize (vsub (samplePoint ?A ?E 5) (closestPoint (0, 3, 0) (samplePoint ?A ?E 5))))
             (capsuleRadius -
              vlength (vsub (closestPoint (0, 3, 0) (samplePoint ?A ?E 5)) (samplePoint ?A ?E 5))) =
           Vec 0 (-1/10) 0"
    by (simp only: jumping_hit capsuleRadius_def jumping_push)
  note T = push_out_step[OF placed_cell(1) fresh occ example_stores(1,2,3) k none hit refl refl refl,
      unfolded c]
  have 1: "fst (collideCell (chunks placedWorld) capsuleRadius (0, 3, 0) ([], jumpingStore)) =
           [Key 0 3 0]"
    using T[THEN conjunct2, THEN conjunct2, THEN conjunct1] by (simp add: getCellKey_def)
  have 2: "vecs (snd (collideCell (chunks placedWorld) capsuleRadius (0, 3, 0) ([], jumpingStore)))
     ColliderStart = Vec (1/2) (7/5) (1/2)"
    using T[THEN conjunct2, THEN conjunct2, THEN conjunct2, THEN conjunct1] by simp
  have 3: "vecs (snd (collideCell (chunks placedWorld) capsuleRadius (0, 3, 0) ([], jumpingStore)))
     ColliderEnd = Vec (1/2) (53/20) (1/2)"
    using T[THEN conjunct2, THEN conjunct2, THEN conjunct2, THEN conjunct2, THEN conjunct1] by simp
  have 4: "vlength (Vec 0 (-1/10) 0) = capsuleRadius - 1/4"
    by (simp add: vlength_axis capsuleRadius_def del: vlength.simps)
  have 5: "vdot (Vec 0 (-1/10) 0) (Vec 1 0 0) = 0"
    by simp
  have 6: "vdot (vecs (snd (collideCell (chunks placedWorld) capsuleRadius (0, 3, 0) ([], jumpingStore)))
           Velocity) (Vec 1 0 0) = 1"
    using T[THEN conjunct2, THEN conjunct2, THEN conjunct2, THEN conjunct2, THEN conjunct2,
        THEN conjunct2, rule_format, OF 5] by simp
  show ?thesis
    apply (intro conjI)
    apply (rule placed_cell(1) placed_cell(3) k d4 hit 1 2 3 4 5 6)+
    done
qed

lemma vsub_self [simp]: "vsub p p = Vec 0 0 0"
  by (cases p) simp

text \<open>
  C10 (zero-distance degeneracy). When the pass comes to a cell that it has not
  visited, that is occupied in its resident chunk and for which the first sample
  within the (positive) radius lies exactly at its closest point on the cell's unit
  cube: the distance is 0, normalising the zero difference vector gives the zero
  vector, the intersection routine returns an object whose correction and normal are
  both the zero vector, and the step for the cell leaves both ends of the capsule
  and the velocity as they were. Vectors are triples of reals here, so that there
  is no NaN to produce; \<open>normalize\<close> divides by 1 when the length is 0.
\<close>

theorem zero_distance_degeneracy:
  assumes "getChunkRecordAtCell cs x y z = Some rec"
    and "getCellKey (real_of_int x) (real_of_int y) (real_of_int z) \<notin> set visited"
    and "occupancy rec (getCellKey (real_of_int x) (real_of_int y) (real_of_int z)) \<noteq> None"
    and "vecs s ColliderStart = a" and "vecs s ColliderEnd = e" and "vecs s Velocity = v"
    and "k \<le> steps"
    and "\<forall>j. j < k \<longrightarrow> \<not> sampleDist (x, y, z) a e j < radius"
    and "closestPoint (x, y, z) (samplePoint a e k) = samplePoint a e k"
    and "0 < radius"
  shows "sampleDist (x, y, z) a e k = 0 \<and>
         vnormalize (vsub (samplePoint a e k) (closestPoint (x, y, z) (samplePoint a e k))) =
           Vec 0 0 0 \<and>
         (\<exists>res s4.
            capsuleIntersectCorrection radius
              (box_setFromCenterAndSize TmpPos TmpVec
                 (vec_set TmpVec 1 1 1
                    (vec_set TmpPos (real_of_int x + 1/2) (real_of_int y + 1/2) (real_of_int z + 1/2) s))) =
              (Some res, s4) \<and>
            vecs s4 (correction res) = Vec 0 0 0 \<and> vecs s4 (normal res) = Vec 0 0 0) \<and>
         fst (collideCell cs radius (x, y, z) (visited, s)) =
           getCellKey (real_of_int x) (real_of_int y) (real_of_int z) # visited \<and>
         vecs (snd (collideCell cs radius (x, y, z) (visited, s))) ColliderStart = a \<and>
         vecs (snd (collideCell cs radius (x, y, z) (visited, s))) ColliderEnd = e \<and>
         vecs (snd (collideCell cs radius (x, y, z) (visited, s))) Velocity = v"
proof -
  have d: "sampleDist (x, y, z) a e k = 0"
    by (simp add: sampleDist_def assms(9))
  have n: "vnormalize (vsub (samplePoint a e k) (closestPoint (x, y, z) (samplePoint a e k))) =
           Vec 0 0 0"
    by (simp add: assms(9))
  have hit: "sampleDist (x, y, z) a e k < radius"
    using assms(10) by (simp add: d)
  have c: "Vec 0 0 0 =
           vscale (vnormalize (vsub (samplePoint a e k) (closestPoint (x, y, z) (samplePoint a e k))))
             (radius - sampleDist (x, y, z) a e k)"
    by (simp add: n)
  from collideCell_hit[OF assms(1-8) hit c] obtain s' where
    s': "collideCell cs radius (x, y, z) (visited, s) =
           (getCellKey (real_of_int x) (real_of_int y) (real_of_int z) # visited, s')"
      "vecs s' ColliderStart = a" "vecs s' ColliderEnd = e" "vecs s' Velocity = v"
    by (elim exE conjE) (rule that; simp)
  note res = cell_correction[OF assms(4,5,7,8) hit c]
  show ?thesis
    unfolding s'(1) fst_conv snd_conv
    apply (intro conjI)
          apply (rule d)
         apply (rule n)
        apply (rule res)
       apply (rule refl)
      apply (rule s'(2))
     apply (rule s'(3))
    apply (rule s'(4))
    done
qed

text \<open>
  The feet inside the ground cube: sample 0 is its own closest point, and the step
  for the cell \<open>(0, 0, 0)\<close> moves nothing.
\<close>

theorem zero_distance_degeneracy_witness:
  "getChunkRecordAtCell (chunks firstWorld) 0 0 0 = Some (recordAt firstWorld (Key 0 0 0)) \<and>
   occupancy (recordAt firstWorld (Key 0 0 0)) (Key 0 0 0) = Some Green \<and>
   (0 :: nat) \<le> steps \<and>
   closestPoint (0, 0, 0) (samplePoint (Vec (1/2) (3/4) (1/2)) (Vec (1/2) 2 (1/2)) 0) =
     samplePoint (Vec (1/2) (3/4) (1/2)) (Vec (1/2) 2 (1/2)) 0 \<and>
   0 < capsuleRadius \<and>
   sampleDist (0, 0, 0) (Vec (1/2) (3/4) (1/2)) (Vec (1/2) 2 (1/2)) 0 = 0 \<and>
   fst (collideCell (chunks firstWorld) capsuleRadius (0, 0, 0) ([], sunkStore)) = [Key 0 0 0] \<and>
   vecs (snd (collideCell (chunks firstWorld) capsuleRadius (0, 0, 0) ([], sunkStore)))
     ColliderStart = Vec (1/2) (3/4) (1/2) \<and>
   vecs (snd (collideCell (chunks firstWorld) capsuleRadius (0, 0, 0) ([], sunkStore)))
     ColliderEnd = Vec (1/2) 2 (1/2) \<and>
   vecs (snd (collideCell (chunks firstWorld) capsuleRadius (0, 0, 0) ([], sunkStore)))
     Velocity = Vec 0 (-1) 0"
proof -
  let ?A = "Vec (1/2) (3/4) (1/2)" and ?E = "Vec (1/2) 2 (1/2)"
  have fresh: "getCellKey (real_of_int 0) (real_of_int 0) (real_of_int 0) \<notin> set []"
    by simp
  have occ: "occupancy (recordAt firstWorld (Key 0 0 0))
               (getCellKey (real_of_int 0) (real_of_int 0) (real_of_int 0)) \<noteq> None"
    by (simp only: ground_cell(2,3)) simp
  have k: "(0 :: nat) \<le> steps" by simp
  have none: "\<forall>j. j < (0 :: nat) \<longrightarrow> \<not> sampleDist (0, 0, 0) ?A ?E j < capsuleRadius"
    by simp
  have at: "closestPoint (0, 0, 0) (samplePoint ?A ?E 0) = samplePoint ?A ?E 0"
    by (simp add: sunk_geometry)
  have r: "0 < capsuleRadius" by (simp add: capsuleRadius_def)
  note T = zero_distance_degeneracy[OF ground_cell(1) fresh occ example_stores(4,5,6) k none at r]
  have 1: "fst (collideCell (chunks firstWorld) capsuleRadius (0, 0, 0) ([], sunkStore)) = [Key 0 0 0]"
    using T[THEN conjunct2, THEN conjunct2, THEN conjunct2, THEN conjunct1]
    by (simp add: getCellKey_def)
  show ?thesis
    apply (intro conjI)
    apply (rule ground_cell(1) ground_cell(3) k at r 1 T[THEN conjunct1]
        T[THEN conjunct2, THEN conjunct2, THEN conjunct2, THEN conjunct2, THEN conjunct1]
        T[THEN conjunct2, THEN conjunct2, THEN conjunct2, THEN conjunct2, THEN conjunct2, THEN conjunct1]
        T[THEN conjunct2, THEN conjunct2, THEN conjunct2, THEN conjunct2, THEN conjunct2, THEN conjunct2])+
    done
qed

end
